theory Spec2Isabelle
  imports Complex_Main "HOL-Library.Word" "HOL-Library.Product_Lexorder"
begin

section \<open>RingBuffer (HriPhysio/Core/ringBuffer.h)\<close>

text \<open>
  The class template \<open>RingBuffer<T>\<close> keeps its elements in an owned array and four
  \<open>std::size_t\<close> counters. \<open>std::size_t\<close> is taken as a 64-bit unsigned integer, so
  \<open>+\<close> and \<open>-\<close> wrap around as they do in C++ (the bulk \<open>enqueue\<close> relies on it).
  The array is a list whose length is the allocated length. The diagnostics written to
  \<open>std::cerr\<close> are not part of the model. \<open>T{}\<close>, the value-initialised element, is a
  parameter \<open>dflt\<close> of the operations that allocate or clear.

  Every method but \<open>data\<close>, \<open>empty\<close>, \<open>full\<close>, \<open>size\<close> and \<open>length\<close> takes the
  \<open>std::mutex lock\<close> on entry with a \<open>std::scoped_lock\<close> and releases it when it
  returns. Called by a thread that does not hold the mutex, a method is the sequential
  state transformer of its body, returning its result together with the new state: that
  is what the definitions of \<open>clear\<close>, \<open>enqueue\<close>, \<open>dequeue\<close> and \<open>front\<close> below
  are. \<open>std::mutex\<close> is not recursive: a thread that locks it while holding it does
  not get past the lock (C++ leaves such a lock undefined; it blocks). This happens in one place, \<open>resize\<close>, which calls
  \<open>clear()\<close> under its own guard. A call is therefore either \<open>Returns s\<close>, returning
  with the object in state \<open>s\<close>, or \<open>Blocks s\<close>: it never returns, and \<open>s\<close> is the
  state in which it leaves the object (which the unguarded queries still read).
\<close>

datatype 's call = Returns 's | Blocks 's

type_synonym size_t = "64 word"

record 'a RingBuffer =
  buffer :: "'a list"
  buffer_length :: size_t
  buffer_head :: size_t
  buffer_tail :: size_t
  buffer_size :: size_t
  warnings :: bool

definition RingBuffer :: "'a \<Rightarrow> size_t \<Rightarrow> 'a RingBuffer" where
  "RingBuffer dflt len =
     \<lparr>buffer = replicate (unat len) dflt,
      buffer_length = len,
      buffer_head = 0,
      buffer_tail = 0,
      buffer_size = 0,
      warnings = False\<rparr>"

definition setWarnings :: "bool \<Rightarrow> 'a RingBuffer \<Rightarrow> 'a RingBuffer" where
  "setWarnings v rb = rb\<lparr>warnings := v\<rparr>"

definition clear :: "'a \<Rightarrow> 'a RingBuffer \<Rightarrow> 'a RingBuffer" where
  "clear dflt rb =
     rb\<lparr>buffer := replicate (unat (buffer_length rb)) dflt,
        buffer_size := 0,
        buffer_head := 0,
        buffer_tail := 0\<rparr>"

text \<open>
  \<open>clear_call held\<close> is the call \<open>clear()\<close> made by a thread for which \<open>held\<close> says
  whether it already holds the mutex: the \<open>scoped_lock\<close> at the head of \<open>clear\<close> is
  passed only if it does not.
\<close>

definition clear_call :: "bool \<Rightarrow> 'a \<Rightarrow> 'a RingBuffer \<Rightarrow> 'a RingBuffer call" where
  "clear_call held dflt rb = (if held then Blocks rb else Returns (clear dflt rb))"

text \<open>
  \<open>resize\<close> takes the mutex, assigns \<open>buffer_length\<close>, allocates the new array and
  then calls \<open>clear()\<close> while its guard still holds the mutex.
\<close>

definition resize :: "'a \<Rightarrow> size_t \<Rightarrow> 'a RingBuffer \<Rightarrow> 'a RingBuffer call" where
  "resize dflt len rb =
     (let rb1 = rb\<lparr>buffer_length := len\<rparr>;
          rb2 = rb1\<lparr>buffer := replicate (unat (buffer_length rb1)) dflt\<rparr>
      in clear_call True dflt rb2)"

definition empty_rb :: "'a RingBuffer \<Rightarrow> bool" where
  "empty_rb rb \<longleftrightarrow> buffer_size rb = 0"

definition full :: "'a RingBuffer \<Rightarrow> bool" where
  "full rb \<longleftrightarrow> buffer_size rb \<ge> buffer_length rb"

definition size_rb :: "'a RingBuffer \<Rightarrow> size_t" where
  "size_rb rb = buffer_size rb"

definition length_rb :: "'a RingBuffer \<Rightarrow> size_t" where
  "length_rb rb = buffer_length rb"

text \<open>Single-element \<open>enqueue(const T& item)\<close>: the result is the returned flag and the new state.\<close>

definition enqueue :: "'a \<Rightarrow> 'a RingBuffer \<Rightarrow> bool \<times> 'a RingBuffer" where
  "enqueue item rb =
     (if buffer_length rb = 0 then (False, rb)
      else
        let rb1 = (if full rb
                   then rb\<lparr>buffer_head := (buffer_head rb + 1) mod buffer_length rb,
                           buffer_size := buffer_size rb - 1\<rparr>
                   else rb);
            rb2 = rb1\<lparr>buffer := (buffer rb1)[unat (buffer_tail rb1) := item]\<rparr>;
            rb3 = rb2\<lparr>buffer_tail := (buffer_tail rb2 + 1) mod buffer_length rb2,
                      buffer_size := buffer_size rb2 + 1\<rparr>
        in (True, rb3))"

text \<open>
  The insertion loop of the bulk \<open>enqueue(const T* items, std::size_t length)\<close>, from
  index \<open>idx\<close> on. \<open>items\<close> is the caller's array, read at \<open>idx < len\<close>.
\<close>

function enqueue_loop :: "'a list \<Rightarrow> size_t \<Rightarrow> size_t \<Rightarrow> 'a RingBuffer \<Rightarrow> 'a RingBuffer" where
  "enqueue_loop items len idx rb =
     (if idx < len then
        enqueue_loop items len (idx + 1)
          (rb\<lparr>buffer := (buffer rb)[unat (buffer_tail rb) := items ! unat idx],
              buffer_tail := (buffer_tail rb + 1) mod buffer_length rb,
              buffer_size := buffer_size rb + 1\<rparr>)
      else rb)"
  by pat_completeness auto

lemma unat_succ_below: "(idx :: size_t) < len \<Longrightarrow> unat (idx + 1) = Suc (unat idx)"
  by unat_arith

termination enqueue_loop
  by (relation "measure (\<lambda>(items, len, idx, rb). unat len - unat idx)")
     (auto simp: unat_succ_below word_less_nat_alt)

definition enqueue_bulk :: "'a list \<Rightarrow> size_t \<Rightarrow> 'a RingBuffer \<Rightarrow> bool \<times> 'a RingBuffer" where
  "enqueue_bulk items len rb =
     (if len > buffer_length rb \<or> buffer_length rb = 0 then (False, rb)
      else
        let rb1 = (if buffer_size rb + len \<ge> buffer_length rb
                   then rb\<lparr>buffer_head := (buffer_head rb + len) mod buffer_length rb,
                           buffer_size := buffer_size rb - len\<rparr>
                   else rb)
        in (True, enqueue_loop items len 0 rb1))"

text \<open>Single-element \<open>dequeue()\<close>: \<open>std::nullopt\<close> is \<open>None\<close>.\<close>

definition dequeue :: "'a RingBuffer \<Rightarrow> 'a option \<times> 'a RingBuffer" where
  "dequeue rb =
     (if buffer_length rb = 0 then (None, rb)
      else if empty_rb rb then (None, rb)
      else
        (Some (buffer rb ! unat (buffer_head rb)),
         rb\<lparr>buffer_head := (buffer_head rb + 1) mod buffer_length rb,
            buffer_size := buffer_size rb - 1\<rparr>))"

text \<open>
  The copy loop of the bulk \<open>dequeue(T* items, length, overlap)\<close>. \<open>items\<close> is the
  caller's output array, written at \<open>idx < len\<close>; the updated array is returned.
\<close>

function dequeue_loop ::
  "size_t \<Rightarrow> size_t \<Rightarrow> size_t \<Rightarrow> size_t \<Rightarrow> 'a list \<Rightarrow> 'a RingBuffer \<Rightarrow> 'a list \<times> 'a RingBuffer" where
  "dequeue_loop len keep idx buffer_pos items rb =
     (if idx < len then
        dequeue_loop len keep (idx + 1)
          ((buffer_pos + 1) mod buffer_length rb)
          (items[unat idx := buffer rb ! unat buffer_pos])
          (if idx < keep
           then rb\<lparr>buffer_head := (buffer_head rb + 1) mod buffer_length rb,
                   buffer_size := buffer_size rb - 1\<rparr>
           else rb)
      else (items, rb))"
  by pat_completeness auto

termination dequeue_loop
  by (relation "measure (\<lambda>(len, keep, idx, buffer_pos, items, rb). unat len - unat idx)")
     (auto simp: unat_succ_below word_less_nat_alt)

definition dequeue_bulk ::
  "'a list \<Rightarrow> size_t \<Rightarrow> size_t \<Rightarrow> 'a RingBuffer \<Rightarrow> bool \<times> 'a list \<times> 'a RingBuffer" where
  "dequeue_bulk items len overlap rb =
     (if len > buffer_length rb \<or> buffer_length rb = 0 \<or> overlap > len then (False, items, rb)
      else if len > buffer_size rb then (False, items, rb)
      else
        let keep = len - overlap;
            buffer_pos = buffer_head rb
        in (case dequeue_loop len keep 0 buffer_pos items rb of
              (items', rb') \<Rightarrow> (True, items', rb')))"

text \<open>
  \<open>front() const\<close> and the bulk peek assign no member, so the model returns no state.
  The bulk peek is declared \<open>bool front(T& item)\<close> in the header while its body reads
  \<open>items\<close> and \<open>length\<close>; they are taken as parameters, as the body uses them.
\<close>

definition front :: "'a RingBuffer \<Rightarrow> 'a option" where
  "front rb =
     (if buffer_length rb = 0 then None
      else if empty_rb rb then None
      else Some (buffer rb ! unat (buffer_head rb)))"

function front_loop :: "size_t \<Rightarrow> size_t \<Rightarrow> size_t \<Rightarrow> 'a list \<Rightarrow> 'a RingBuffer \<Rightarrow> 'a list" where
  "front_loop len idx temp_head items rb =
     (if idx < len then
        front_loop len (idx + 1)
          ((temp_head + 1) mod buffer_length rb)
          (items[unat idx := buffer rb ! unat temp_head])
          rb
      else items)"
  by pat_completeness auto

termination front_loop
  by (relation "measure (\<lambda>(len, idx, temp_head, items, rb). unat len - unat idx)")
     (auto simp: unat_succ_below word_less_nat_alt)

definition front_bulk :: "'a list \<Rightarrow> size_t \<Rightarrow> 'a RingBuffer \<Rightarrow> bool \<times> 'a list" where
  "front_bulk items len rb =
     (if len > buffer_length rb \<or> buffer_length rb = 0 then (False, items)
      else if len > buffer_size rb then (False, items)
      else (True, front_loop len 0 (buffer_head rb) items rb))"

declare enqueue_loop.simps [simp del] dequeue_loop.simps [simp del] front_loop.simps [simp del]

subsection \<open>State invariant, stored sequence and call sequences\<close>

text \<open>
  \<open>rb_inv\<close> is the invariant of the data model: the storage has \<open>buffer_length\<close>
  cells, \<open>buffer_size \<le> buffer_length\<close>, head and tail are below \<open>buffer_length\<close>
  whenever it is positive, and the tail is \<open>(head + size) mod length\<close> (for length 0,
  where HOL's \<open>mod\<close> is the identity, this reads \<open>tail = head + size\<close>). Under it
  every index the methods use is inside the array.
\<close>

definition rb_inv :: "'a RingBuffer \<Rightarrow> bool" where
  "rb_inv rb \<longleftrightarrow>
     length (buffer rb) = unat (buffer_length rb) \<and>
     buffer_size rb \<le> buffer_length rb \<and>
     (0 < buffer_length rb \<longrightarrow>
        buffer_head rb < buffer_length rb \<and> buffer_tail rb < buffer_length rb) \<and>
     unat (buffer_tail rb) =
       (unat (buffer_head rb) + unat (buffer_size rb)) mod unat (buffer_length rb)"

definition contents :: "'a RingBuffer \<Rightarrow> 'a list" where
  "contents rb =
     map (\<lambda>i. buffer rb ! ((unat (buffer_head rb) + i) mod unat (buffer_length rb)))
       [0..<unat (buffer_size rb)]"

text \<open>
  \<open>contents\<close> lists the stored elements from the oldest to the newest. \<open>enqueue_seq\<close>
  and \<open>dequeue_seq\<close> are a caller making single-element calls one after the other.
\<close>

fun enqueue_seq :: "'a list \<Rightarrow> 'a RingBuffer \<Rightarrow> 'a RingBuffer" where
  "enqueue_seq [] rb = rb"
| "enqueue_seq (x # xs) rb = enqueue_seq xs (snd (enqueue x rb))"

fun dequeue_seq :: "nat \<Rightarrow> 'a RingBuffer \<Rightarrow> 'a option list \<times> 'a RingBuffer" where
  "dequeue_seq 0 rb = ([], rb)"
| "dequeue_seq (Suc n) rb =
     (case dequeue rb of (r, rb') \<Rightarrow>
        (case dequeue_seq n rb' of (rs, rb'') \<Rightarrow> (r # rs, rb'')))"

section \<open>Graph (HriPhysioLib/src/graph.cpp)\<close>

text \<open>
  Only \<open>graph.cpp\<close> is among the sources; the class declaration (\<open>graph.h\<close>) is not.
  What the method bodies use of it is taken as they use it: an \<open>Edge\<close> has an \<open>int\<close>
  field \<open>to\<close> and a \<open>double\<close> field \<open>weight\<close>; \<open>nbr\<close> is an array of
  \<open>num_nodes\<close> edge vectors; \<open>dist\<close> and \<open>prev\<close> are vectors indexed by node
  (\<open>dist\<close> is called \<open>dist_vec\<close> here); \<open>pii\<close> is a pair of \<open>int\<close>. Every value
  stored in \<open>dist\<close> or pushed on the queue is \<open>0\<close>, \<open>-1\<close> or the \<open>int\<close> variable
  \<open>weight\<close>, so these are integers whatever element type the header gives them.

  C++ \<open>int\<close> is modelled as \<open>int\<close> without its bounds, and \<open>double\<close> as \<open>real\<close>:
  the sum \<open>edge.weight + currentDist\<close> is the exact one, and the conversion to
  \<open>int\<close> truncates towards zero (\<open>double_to_int\<close>).

  \<open>Out_of_range\<close> is the \<open>std::out_of_range\<close> that \<open>addEdge\<close> throws. It is thrown before
  any member is assigned, so a failed call leaves the graph it was given.
  \<open>Undefined_index\<close> marks an access outside a vector or array, which C++ leaves
  undefined; no such access happens on a graph built by the constructor and \<open>addEdge\<close>
  when the queried nodes are in range.
\<close>

datatype error = Out_of_range | Undefined_index

datatype Edge = Edge (edge_to: int) (edge_weight: real)

type_synonym pii = "int \<times> int"

record Graph =
  num_nodes :: int
  num_edges :: int
  nbr :: "Edge list list"
  dist_vec :: "int list"
  prev :: "int list"

definition Graph :: "int \<Rightarrow> Graph" where
  "Graph n =
     \<lparr>num_nodes = n, num_edges = 0, nbr = replicate (nat n) [], dist_vec = [], prev = []\<rparr>"

definition valid_index :: "int \<Rightarrow> 'a list \<Rightarrow> bool" where
  "valid_index i xs \<longleftrightarrow> 0 \<le> i \<and> nat i < length xs"

definition addEdge :: "int \<Rightarrow> int \<Rightarrow> real \<Rightarrow> Graph \<Rightarrow> error + Graph" where
  "addEdge u v weight g =
     (if u \<ge> num_nodes g \<or> u < 0 \<or> v \<ge> num_nodes g \<or> v < 0 then Inl Out_of_range
      else
        let nbr1 = (nbr g)[nat u := nbr g ! nat u @ [Edge v weight]];
            nbr2 = nbr1[nat v := nbr1 ! nat v @ [Edge u weight]]
        in Inr (g\<lparr>nbr := nbr2, num_edges := num_edges g + 1\<rparr>))"

definition getNumEdges :: "Graph \<Rightarrow> int" where
  "getNumEdges g = num_edges g"

text \<open>\<open>std::to_string(int)\<close>: the decimal digits, after a minus sign for a negative number.\<close>

definition digit_char :: "nat \<Rightarrow> char" where
  "digit_char d = ''0123456789'' ! d"

function string_of_nat :: "nat \<Rightarrow> string" where
  "string_of_nat n =
     (if n < 10 then [digit_char n] else string_of_nat (n div 10) @ [digit_char (n mod 10)])"
  by pat_completeness auto

termination string_of_nat
  by (relation "measure (\<lambda>n. n)") auto

definition to_string :: "int \<Rightarrow> string" where
  "to_string i = (if i < 0 then CHR ''-'' # string_of_nat (nat (- i)) else string_of_nat (nat i))"

definition double_to_int :: "real \<Rightarrow> int" where
  "double_to_int x = (if 0 \<le> x then \<lfloor>x\<rfloor> else \<lceil>x\<rceil>)"

text \<open>
  The fringe is a \<open>std::priority_queue\<close> of pairs under \<open>std::greater\<close>: \<open>top()\<close> is
  the least pair in the lexicographic order and \<open>pop()\<close> removes it. It is kept as a
  list in ascending order: \<open>emplace\<close> inserts in order, the head is \<open>top()\<close>, the tail
  is the queue after \<open>pop()\<close>.
\<close>

definition emplace :: "pii \<Rightarrow> pii list \<Rightarrow> pii list" where
  "emplace x fringe = insort x fringe"

text \<open>The loop over \<open>nbr[from]\<close> in \<open>dijkstra\<close>, one edge per step.\<close>

fun relax ::
  "int \<Rightarrow> int \<Rightarrow> bool list \<Rightarrow> Edge list \<Rightarrow> pii list \<Rightarrow> Graph \<Rightarrow> error + (pii list \<times> Graph)" where
  "relax from currentDist used [] fringe g = Inr (fringe, g)"
| "relax from currentDist used (edge # edges) fringe g =
     (let to = edge_to edge;
          weight = double_to_int (edge_weight edge + of_int currentDist)
      in if \<not> valid_index to used then Inl Undefined_index
         else if used ! nat to then relax from currentDist used edges fringe g
         else if \<not> valid_index to (dist_vec g) \<or> \<not> valid_index to (prev g) then Inl Undefined_index
         else if dist_vec g ! nat to = -1 \<or> weight < dist_vec g ! nat to then
           (let g' = g\<lparr>dist_vec := (dist_vec g)[nat to := weight], prev := (prev g)[nat to := from]\<rparr>
            in relax from currentDist used edges (emplace (dist_vec g' ! nat to, to) fringe) g')
         else relax from currentDist used edges fringe g)"

text \<open>
  The \<open>while (!fringe.empty())\<close> loop. Each round either skips a node already used,
  which shortens the fringe, or marks a new node used; so the loop ends.
\<close>

function dijkstra_loop :: "bool list \<Rightarrow> pii list \<Rightarrow> Graph \<Rightarrow> error + Graph" where
  "dijkstra_loop used [] g = Inr g"
| "dijkstra_loop used ((currentDist, from) # fringe) g =
     (if \<not> valid_index from used then Inl Undefined_index
      else if used ! nat from then dijkstra_loop used fringe g
      else if \<not> valid_index from (nbr g) then Inl Undefined_index
      else
        (case relax from currentDist (used[nat from := True]) (nbr g ! nat from) fringe g of
           Inl e \<Rightarrow> Inl e
         | Inr (fringe', g') \<Rightarrow> dijkstra_loop (used[nat from := True]) fringe' g'))"
  by pat_completeness auto

lemma unused_decreases:
  "i < length used \<Longrightarrow> \<not> used ! i \<Longrightarrow>
   length (filter Not (used[i := True])) < length (filter Not used)"
proof (induction used arbitrary: i)
  case Nil
  then show ?case by simp
next
  case (Cons b bs)
  show ?case
  proof (cases i)
    case 0
    then show ?thesis using Cons.prems by simp
  next
    case (Suc j)
    then show ?thesis using Cons.prems Cons.IH[of j] by simp
  qed
qed

termination dijkstra_loop
  by (relation "measures [\<lambda>(used, fringe, g). length (filter Not used),
                          \<lambda>(used, fringe, g). length fringe]")
     (auto simp: valid_index_def unused_decreases)

definition dijkstra :: "int \<Rightarrow> Graph \<Rightarrow> error + Graph" where
  "dijkstra source g =
     (let used = replicate (nat (num_nodes g)) False;
          g1 = g\<lparr>dist_vec := replicate (nat (num_nodes g)) (-1),
                 prev := replicate (nat (num_nodes g)) (-1)\<rparr>
      in if \<not> valid_index source (dist_vec g1) then Inl Undefined_index
         else
           let g2 = g1\<lparr>dist_vec := (dist_vec g1)[nat source := 0]\<rparr>;
               fringe = emplace (dist_vec g2 ! nat source, source) []
           in dijkstra_loop used fringe g2)"

text \<open>
  The loop \<open>for (from = target; from != -1; from = prev[from])\<close> of \<open>shortestPath\<close>.
  Nothing in the loop itself bounds it (a cycle in \<open>prev\<close> would keep it running), so
  its result is an option: \<open>None\<close> is a loop that does not end.
\<close>

partial_function (option) recover_path :: "int list \<Rightarrow> int \<Rightarrow> int list \<Rightarrow> (error + int list) option" where
  "recover_path prv from path =
     (if from = -1 then Some (Inr path)
      else if \<not> valid_index from prv then Some (Inl Undefined_index)
      else recover_path prv (prv ! nat from) (path @ [from]))"

text \<open>The loop that joins the node ids with \<open>-\<close>.\<close>

function message_loop :: "int list \<Rightarrow> nat \<Rightarrow> string \<Rightarrow> string" where
  "message_loop path idx message =
     (if idx < length path then
        message_loop path (Suc idx)
          ((if idx \<noteq> 0 then message @ ''-'' else message) @ to_string (path ! idx))
      else message)"
  by pat_completeness auto

termination message_loop
  by (relation "measure (\<lambda>(path, idx, message). length path - idx)") auto

text \<open>
  \<open>shortestPath\<close> returns through its reference parameter \<open>message\<close>; the model
  returns the message together with the graph, whose \<open>dist\<close> and \<open>prev\<close> the query
  overwrites.
\<close>

definition shortestPath :: "int \<Rightarrow> int \<Rightarrow> Graph \<Rightarrow> (error + string \<times> Graph) option" where
  "shortestPath source target g =
     (if source = target then Some (Inr (to_string source @ ''-'' @ to_string target, g))
      else
        (case dijkstra source g of
           Inl e \<Rightarrow> Some (Inl e)
         | Inr g' \<Rightarrow>
             (case recover_path (prev g') target [] of
                None \<Rightarrow> None
              | Some (Inl e) \<Rightarrow> Some (Inl e)
              | Some (Inr path0) \<Rightarrow>
                  (let path = rev path0
                   in if length path = 1 then Some (Inr ('''', g'))
                      else Some (Inr (message_loop path 0 '''', g'))))))"

subsection \<open>Well-formed graphs, call sequences and reachability\<close>

text \<open>
  \<open>wf_graph\<close> holds of every graph built by the constructor and \<open>addEdge\<close>:
  \<open>nbr\<close> has \<open>num_nodes\<close> entries and every edge leads to a node in range.
  \<open>addEdge_calls\<close> is a caller making the given \<open>addEdge\<close> calls in order, going on
  after a call that throws; it returns the graph and the number of calls that succeeded.
  \<open>reachable g a b\<close> says that \<open>b\<close> can be reached from \<open>a\<close> along edges of \<open>g\<close>.
\<close>

definition wf_graph :: "Graph \<Rightarrow> bool" where
  "wf_graph g \<longleftrightarrow>
     0 \<le> num_nodes g \<and> length (nbr g) = nat (num_nodes g) \<and>
     (\<forall>edges \<in> set (nbr g). \<forall>e \<in> set edges. 0 \<le> edge_to e \<and> edge_to e < num_nodes g)"

fun addEdge_calls :: "(int \<times> int \<times> real) list \<Rightarrow> Graph \<Rightarrow> Graph \<times> nat" where
  "addEdge_calls [] g = (g, 0)"
| "addEdge_calls ((u, v, weight) # calls) g =
     (case addEdge u v weight g of
        Inl e \<Rightarrow> addEdge_calls calls g
      | Inr g' \<Rightarrow> (case addEdge_calls calls g' of (g'', k) \<Rightarrow> (g'', Suc k)))"


definition edge_rel :: "Graph \<Rightarrow> (int \<times> int) set" where
  "edge_rel g = {(u, v). valid_index u (nbr g) \<and> v \<in> edge_to ` set (nbr g ! nat u)}"

definition reachable :: "Graph \<Rightarrow> int \<Rightarrow> int \<Rightarrow> bool" where
  "reachable g a b \<longleftrightarrow> (a, b) \<in> (edge_rel g)\<^sup>*"

section \<open>RingBuffer: lemmas and properties\<close>

subsection \<open>Arithmetic of the indices\<close>

lemma unat_inc_mod:
  "(x :: size_t) < c \<Longrightarrow> unat ((x + 1) mod c) = Suc (unat x) mod unat c"
  by (simp add: unat_mod unat_succ_below)

lemma word_pos_if_less: "(a :: size_t) < c \<Longrightarrow> 0 < c"
  by unat_arith

lemma unat_diff_succ:
  assumes "(idx :: size_t) < len"
  shows "unat (len - idx) = Suc (unat (len - (idx + 1)))"
proof -
  have a: "unat (len - idx) = unat len - unat idx"
    using assms by (simp add: unat_sub)
  have "idx + 1 \<le> len" using assms by (rule inc_le)
  then have b: "unat (len - (idx + 1)) = unat len - unat (idx + 1)"
    by (simp add: unat_sub)
  have "unat idx < unat len" using assms by (simp add: word_less_nat_alt)
  then show ?thesis using a b unat_succ_below[OF assms] by simp
qed

lemma mod_add_inj_le:
  fixes h c i j :: nat
  assumes "i \<le> j" "j < c" "(h + i) mod c = (h + j) mod c"
  shows "i = j"
proof -
  have "c dvd (h + j) - (h + i)"
    using assms by (metis add_le_cancel_left mod_eq_dvd_iff_nat)
  then have "c dvd j - i" by simp
  moreover have "j - i < c" using assms by arith
  ultimately have "j - i = 0" by (meson dvd_imp_le not_less zero_less_iff_neq_zero)
  then show ?thesis using assms by arith
qed

lemma mod_add_inj:
  fixes h c i j :: nat
  assumes "i < c" "j < c" "(h + i) mod c = (h + j) mod c"
  shows "i = j"
proof (cases "i \<le> j")
  case True then show ?thesis using assms mod_add_inj_le by blast
next
  case False
  then have "j \<le> i" by simp
  then show ?thesis using assms mod_add_inj_le[of j i c h] by simp
qed

lemma mod_Suc_add: "(Suc h mod c + m) mod c = (h + Suc m) mod c"
  by (simp add: mod_add_left_eq)

lemma mod_Suc_shift:
  assumes "Suc i \<le> j"
  shows "(Suc p mod c + (j - Suc i)) mod c = (p + (j - i)) mod c"
proof -
  have "(Suc p mod c + (j - Suc i)) mod c = (p + Suc (j - Suc i)) mod c"
    by (rule mod_Suc_add)
  also have "Suc (j - Suc i) = j - i" using assms by arith
  finally show ?thesis .
qed

lemma mod_shift_diff:
  fixes h k n c :: nat
  assumes "k \<le> n"
  shows "((h + k) mod c + (n - k)) mod c = (h + n) mod c"
proof -
  have "((h + k) mod c + (n - k)) mod c = ((h + k) + (n - k)) mod c"
    by (rule mod_add_left_eq)
  also have "(h + k) + (n - k) = h + n" using assms by arith
  finally show ?thesis .
qed

lemma mod_add_mod_add:
  fixes h n l c :: nat
  shows "((h + n) mod c + l) mod c = ((h + l) mod c + n) mod c"
proof -
  have "((h + n) mod c + l) mod c = ((h + n) + l) mod c" by (rule mod_add_left_eq)
  also have "(h + n) + l = (h + l) + n" by simp
  also have "((h + l) + n) mod c = ((h + l) mod c + n) mod c" by (rule mod_add_left_eq[symmetric])
  finally show ?thesis .
qed

subsection \<open>Single-element enqueue and dequeue\<close>

lemma length_contents: "length (contents rb) = unat (buffer_size rb)"
  by (simp add: contents_def)

lemma nth_contents:
  "i < unat (buffer_size rb) \<Longrightarrow>
   contents rb ! i = buffer rb ! ((unat (buffer_head rb) + i) mod unat (buffer_length rb))"
  by (simp add: contents_def)

lemma enqueue_not_full:
  assumes inv: "rb_inv rb" and lt: "buffer_size rb < buffer_length rb"
  shows "fst (enqueue x rb) = True"
    and "rb_inv (snd (enqueue x rb))"
    and "contents (snd (enqueue x rb)) = contents rb @ [x]"
    and "buffer_size (snd (enqueue x rb)) = buffer_size rb + 1"
    and "buffer_length (snd (enqueue x rb)) = buffer_length rb"
proof -
  let ?c = "buffer_length rb"
  have c0: "?c \<noteq> 0" using lt by auto
  have nf: "\<not> full rb" using lt by (simp add: full_def not_le)
  have tl: "buffer_tail rb < ?c" and hd: "buffer_head rb < ?c"
    using inv c0 by (auto simp: rb_inv_def word_gt_0)
  define rb' where "rb' = rb\<lparr>buffer := (buffer rb)[unat (buffer_tail rb) := x],
     buffer_tail := (buffer_tail rb + 1) mod ?c, buffer_size := buffer_size rb + 1\<rparr>"
  have e: "enqueue x rb = (True, rb')"
    using c0 nf by (simp add: enqueue_def rb'_def Let_def)
  show "fst (enqueue x rb) = True" by (simp add: e)
  show "buffer_size (snd (enqueue x rb)) = buffer_size rb + 1" by (simp add: e rb'_def)
  show "buffer_length (snd (enqueue x rb)) = buffer_length rb" by (simp add: e rb'_def)
  have sz: "unat (buffer_size rb + 1) = Suc (unat (buffer_size rb))"
    using lt by (rule unat_succ_below)
  have tl': "unat ((buffer_tail rb + 1) mod ?c) = Suc (unat (buffer_tail rb)) mod unat ?c"
    using tl by (rule unat_inc_mod)
  have teq: "unat (buffer_tail rb) = (unat (buffer_head rb) + unat (buffer_size rb)) mod unat ?c"
    using inv by (simp add: rb_inv_def)
  show "rb_inv (snd (enqueue x rb))"
    using inv c0 lt tl hd
    apply (simp add: e rb'_def rb_inv_def sz tl' word_gt_0)
    apply (intro conjI)
      apply (simp add: inc_le)
     apply (simp add: word_less_nat_alt unat_mod)
    apply (metis mod_Suc_eq add_Suc_right)
    done
  show "contents (snd (enqueue x rb)) = contents rb @ [x]"
  proof -
    have cpos: "0 < unat ?c" using c0 by (simp add: unat_gt_0)
    have szlt: "unat (buffer_size rb) < unat ?c" using lt by (simp add: word_less_nat_alt)
    have old: "\<And>i. i < unat (buffer_size rb) \<Longrightarrow>
        (buffer rb)[unat (buffer_tail rb) := x] ! ((unat (buffer_head rb) + i) mod unat ?c)
        = buffer rb ! ((unat (buffer_head rb) + i) mod unat ?c)"
    proof -
      fix i assume i: "i < unat (buffer_size rb)"
      have "(unat (buffer_head rb) + i) mod unat ?c \<noteq> unat (buffer_tail rb)"
        using mod_add_inj[of i "unat ?c" "unat (buffer_size rb)" "unat (buffer_head rb)"] i szlt teq
        by auto
      then show "(buffer rb)[unat (buffer_tail rb) := x] ! ((unat (buffer_head rb) + i) mod unat ?c)
        = buffer rb ! ((unat (buffer_head rb) + i) mod unat ?c)" by simp
    qed
    have new: "(buffer rb)[unat (buffer_tail rb) := x] ! ((unat (buffer_head rb) + unat (buffer_size rb)) mod unat ?c) = x"
      using inv tl by (simp add: teq[symmetric] rb_inv_def word_less_nat_alt)
    show ?thesis
      by (simp add: e rb'_def contents_def sz old new)
  qed
qed

lemma enqueue_full:
  assumes inv: "rb_inv rb" and c0: "buffer_length rb \<noteq> 0"
    and fl: "buffer_size rb = buffer_length rb"
  shows "fst (enqueue x rb) = True"
    and "rb_inv (snd (enqueue x rb))"
    and "contents (snd (enqueue x rb)) = tl (contents rb) @ [x]"
    and "buffer_size (snd (enqueue x rb)) = buffer_length rb"
    and "buffer_length (snd (enqueue x rb)) = buffer_length rb"
proof -
  let ?c = "buffer_length rb"
  let ?h = "buffer_head rb"
  have f: "full rb" using fl by (simp add: full_def)
  have tl: "buffer_tail rb < ?c" and hd: "?h < ?c"
    using inv c0 by (auto simp: rb_inv_def word_gt_0)
  have cpos: "0 < unat ?c" using c0 by (simp add: unat_gt_0)
  have hlt: "unat ?h < unat ?c" using hd by (simp add: word_less_nat_alt)
  have teq: "unat (buffer_tail rb) = unat ?h"
    using inv fl hlt by (simp add: rb_inv_def)
  then have teq': "buffer_tail rb = ?h" by (simp add: word_unat_eq_iff)
  define rb' where "rb' = rb\<lparr>buffer := (buffer rb)[unat ?h := x],
     buffer_head := (?h + 1) mod ?c,
     buffer_tail := (?h + 1) mod ?c, buffer_size := ?c\<rparr>"
  have e: "enqueue x rb = (True, rb')"
    using c0 f by (simp add: enqueue_def rb'_def Let_def teq' fl)
  show "fst (enqueue x rb) = True" by (simp add: e)
  show "buffer_size (snd (enqueue x rb)) = buffer_length rb" by (simp add: e rb'_def)
  show "buffer_length (snd (enqueue x rb)) = buffer_length rb" by (simp add: e rb'_def)
  have h': "unat ((?h + 1) mod ?c) = Suc (unat ?h) mod unat ?c"
    using hd by (rule unat_inc_mod)
  show "rb_inv (snd (enqueue x rb))"
    using inv c0 hd
    by (simp add: e rb'_def rb_inv_def h' word_gt_0 word_less_nat_alt)
  show "contents (snd (enqueue x rb)) = tl (contents rb) @ [x]"
  proof (rule nth_equalityI)
    show "length (contents (snd (enqueue x rb))) = length (tl (contents rb) @ [x])"
      using cpos by (simp add: e rb'_def length_contents fl)
  next
    fix i assume "i < length (contents (snd (enqueue x rb)))"
    then have i: "i < unat ?c" by (simp add: e rb'_def length_contents)
    have idx: "(Suc (unat ?h) mod unat ?c + i) mod unat ?c = (unat ?h + Suc i) mod unat ?c"
      by (rule mod_Suc_add)
    have lhs: "contents (snd (enqueue x rb)) ! i
        = (buffer rb)[unat ?h := x] ! ((unat ?h + Suc i) mod unat ?c)"
      using i by (simp add: e rb'_def contents_def h' idx)
    show "contents (snd (enqueue x rb)) ! i = (tl (contents rb) @ [x]) ! i"
    proof (cases "Suc i < unat ?c")
      case True
      have "(unat ?h + Suc i) mod unat ?c \<noteq> unat ?h"
        using mod_add_inj[of "Suc i" "unat ?c" 0 "unat ?h"] True hlt cpos by auto
      then have "contents (snd (enqueue x rb)) ! i = buffer rb ! ((unat ?h + Suc i) mod unat ?c)"
        by (simp add: lhs)
      also have "\<dots> = contents rb ! Suc i"
        using True by (simp add: nth_contents fl)
      also have "\<dots> = (tl (contents rb) @ [x]) ! i"
      proof -
        have "i < length (tl (contents rb))" using True by (simp add: length_contents fl)
        then show ?thesis by (simp add: nth_append nth_tl)
      qed
      finally show ?thesis .
    next
      case False
      then have ieq: "Suc i = unat ?c" using i by arith
      have "(unat ?h + Suc i) mod unat ?c = unat ?h"
        using hlt by (simp add: ieq)
      then have "contents (snd (enqueue x rb)) ! i = x"
        using inv hlt by (simp add: lhs rb_inv_def)
      moreover have "(tl (contents rb) @ [x]) ! i = x"
      proof -
        have "length (tl (contents rb)) = i" using ieq by (simp add: length_contents fl)
        then show ?thesis by (metis nth_append_length)
      qed
      ultimately show ?thesis by simp
    qed
  qed
qed

lemma dequeue_nonempty:
  assumes inv: "rb_inv rb" and ne: "buffer_size rb \<noteq> 0"
  shows "fst (dequeue rb) = Some (hd (contents rb))"
    and "rb_inv (snd (dequeue rb))"
    and "contents (snd (dequeue rb)) = tl (contents rb)"
    and "buffer_size (snd (dequeue rb)) = buffer_size rb - 1"
    and "buffer_length (snd (dequeue rb)) = buffer_length rb"
proof -
  let ?c = "buffer_length rb"
  let ?h = "buffer_head rb"
  have c0: "?c \<noteq> 0" using inv ne by (auto simp: rb_inv_def)
  have tl: "buffer_tail rb < ?c" and hd: "?h < ?c"
    using inv c0 by (auto simp: rb_inv_def word_gt_0)
  have hlt: "unat ?h < unat ?c" using hd by (simp add: word_less_nat_alt)
  have npos: "0 < unat (buffer_size rb)" using ne by (simp add: unat_gt_0)
  have nle: "unat (buffer_size rb) \<le> unat ?c"
    using inv by (simp add: rb_inv_def word_le_nat_alt)
  define rb' where "rb' = rb\<lparr>buffer_head := (?h + 1) mod ?c, buffer_size := buffer_size rb - 1\<rparr>"
  have e: "dequeue rb = (Some (buffer rb ! unat ?h), rb')"
    using c0 ne by (simp add: dequeue_def rb'_def empty_rb_def)
  have h': "unat ((?h + 1) mod ?c) = Suc (unat ?h) mod unat ?c"
    using hd by (rule unat_inc_mod)
  have n': "unat (buffer_size rb - 1) = unat (buffer_size rb) - 1"
    using ne by (simp add: unat_minus_one)
  have "contents rb ! 0 = buffer rb ! unat ?h"
    using npos hlt by (simp add: nth_contents)
  moreover have "contents rb \<noteq> []" using npos by (simp add: contents_def)
  ultimately show "fst (dequeue rb) = Some (hd (contents rb))"
    by (simp add: e hd_conv_nth)
  show "buffer_size (snd (dequeue rb)) = buffer_size rb - 1" by (simp add: e rb'_def)
  show "buffer_length (snd (dequeue rb)) = buffer_length rb" by (simp add: e rb'_def)
  have teq: "unat (buffer_tail rb) = (unat ?h + unat (buffer_size rb)) mod unat ?c"
    using inv by (simp add: rb_inv_def)
  have "(Suc (unat ?h) mod unat ?c + (unat (buffer_size rb) - 1)) mod unat ?c
      = (unat ?h + unat (buffer_size rb)) mod unat ?c"
    using npos mod_Suc_add[of "unat ?h" "unat ?c" "unat (buffer_size rb) - 1"] by simp
  then show "rb_inv (snd (dequeue rb))"
    using inv c0 hd nle npos
    by (simp add: e rb'_def rb_inv_def h' n' word_gt_0 word_less_nat_alt word_le_nat_alt teq)
  show "contents (snd (dequeue rb)) = tl (contents rb)"
  proof (rule nth_equalityI)
    show "length (contents (snd (dequeue rb))) = length (tl (contents rb))"
      by (simp add: e rb'_def length_contents n')
  next
    fix i assume "i < length (contents (snd (dequeue rb)))"
    then have i: "Suc i < unat (buffer_size rb)" by (simp add: e rb'_def length_contents n')
    have idx: "(Suc (unat ?h) mod unat ?c + i) mod unat ?c = (unat ?h + Suc i) mod unat ?c"
      by (rule mod_Suc_add)
    have i': "i < unat (buffer_size rb')" using i by (simp add: rb'_def n')
    have "contents (snd (dequeue rb)) ! i = buffer rb ! ((unat ?h + Suc i) mod unat ?c)"
      using nth_contents[OF i'] by (simp add: e rb'_def h' idx)
    also have "\<dots> = contents rb ! Suc i" using i by (simp add: nth_contents)
    also have "\<dots> = tl (contents rb) ! i" using i by (simp add: nth_tl length_contents)
    finally show "contents (snd (dequeue rb)) ! i = tl (contents rb) ! i" .
  qed
qed

subsection \<open>The loops of the bulk operations\<close>

lemma enqueue_loop_effect:
  assumes "idx \<le> len" "buffer_tail rb < buffer_length rb"
  shows "buffer_length (enqueue_loop items len idx rb) = buffer_length rb \<and>
         buffer_head (enqueue_loop items len idx rb) = buffer_head rb \<and>
         warnings (enqueue_loop items len idx rb) = warnings rb \<and>
         length (buffer (enqueue_loop items len idx rb)) = length (buffer rb) \<and>
         buffer_size (enqueue_loop items len idx rb) = buffer_size rb + (len - idx) \<and>
         buffer_tail (enqueue_loop items len idx rb) < buffer_length rb \<and>
         unat (buffer_tail (enqueue_loop items len idx rb)) =
           (unat (buffer_tail rb) + unat (len - idx)) mod unat (buffer_length rb)"
  using assms
proof (induction items len idx rb rule: enqueue_loop.induct)
  case (1 items len idx rb)
  let ?c = "buffer_length rb"
  show ?case
  proof (cases "idx < len")
    case True
    define rb1 where "rb1 = rb\<lparr>buffer := (buffer rb)[unat (buffer_tail rb) := items ! unat idx],
              buffer_tail := (buffer_tail rb + 1) mod ?c,
              buffer_size := buffer_size rb + 1\<rparr>"
    have step: "enqueue_loop items len idx rb = enqueue_loop items len (idx + 1) rb1"
      using True by (subst enqueue_loop.simps) (simp add: rb1_def)
    have cpos: "0 < ?c" using "1.prems"(2) by (rule word_pos_if_less)
    have t1: "buffer_tail rb1 < buffer_length rb1"
      using cpos by (simp add: rb1_def word_mod_less_divisor)
    have le1: "idx + 1 \<le> len" using True by (rule inc_le)
    have ut1: "unat (buffer_tail rb1) = Suc (unat (buffer_tail rb)) mod unat ?c"
      using "1.prems"(2) by (simp add: rb1_def unat_inc_mod)
    note IH = "1.IH"[OF True, folded rb1_def, OF le1 t1]
    have sz: "buffer_size rb1 + (len - (idx + 1)) = buffer_size rb + (len - idx)"
      by (simp add: rb1_def)
    have tl: "(unat (buffer_tail rb1) + unat (len - (idx + 1))) mod unat ?c
        = (unat (buffer_tail rb) + unat (len - idx)) mod unat ?c"
      by (simp add: ut1 unat_diff_succ[OF True] mod_Suc_add)
    have same: "buffer_length rb1 = ?c" "buffer_head rb1 = buffer_head rb"
      "warnings rb1 = warnings rb" "length (buffer rb1) = length (buffer rb)"
      by (simp_all add: rb1_def)
    show ?thesis
      using IH by (simp add: step same sz tl)
  next
    case False
    then have eq: "idx = len" using "1.prems"(1) by simp
    have "enqueue_loop items len idx rb = rb"
      using False by (subst enqueue_loop.simps) simp
    then show ?thesis using "1.prems"(2) eq
      by (simp add: word_less_nat_alt)
  qed
qed

lemma dequeue_loop_state:
  assumes "idx \<le> len" "buffer_head rb < buffer_length rb"
  shows "buffer (snd (dequeue_loop len keep idx pos items rb)) = buffer rb \<and>
         buffer_length (snd (dequeue_loop len keep idx pos items rb)) = buffer_length rb \<and>
         buffer_tail (snd (dequeue_loop len keep idx pos items rb)) = buffer_tail rb \<and>
         warnings (snd (dequeue_loop len keep idx pos items rb)) = warnings rb \<and>
         buffer_size (snd (dequeue_loop len keep idx pos items rb)) =
           buffer_size rb - of_nat (min (unat keep) (unat len) - unat idx) \<and>
         buffer_head (snd (dequeue_loop len keep idx pos items rb)) < buffer_length rb \<and>
         unat (buffer_head (snd (dequeue_loop len keep idx pos items rb))) =
           (unat (buffer_head rb) + (min (unat keep) (unat len) - unat idx)) mod unat (buffer_length rb)"
  using assms
proof (induction len keep idx pos items rb rule: dequeue_loop.induct)
  case (1 len keep idx pos items rb)
  let ?c = "buffer_length rb"
  show ?case
  proof (cases "idx < len")
    case True
    define rb1 where "rb1 = (if idx < keep
           then rb\<lparr>buffer_head := (buffer_head rb + 1) mod ?c,
                   buffer_size := buffer_size rb - 1\<rparr>
           else rb)"
    define pos1 where "pos1 = (pos + 1) mod ?c"
    define items1 where "items1 = items[unat idx := buffer rb ! unat pos]"
    have step: "dequeue_loop len keep idx pos items rb = dequeue_loop len keep (idx + 1) pos1 items1 rb1"
      using True by (subst dequeue_loop.simps) (simp add: rb1_def pos1_def items1_def)
    have cpos: "0 < ?c" using "1.prems"(2) by (rule word_pos_if_less)
    have same: "buffer_length rb1 = ?c" "buffer rb1 = buffer rb"
      "warnings rb1 = warnings rb" "buffer_tail rb1 = buffer_tail rb"
      by (simp_all add: rb1_def)
    have h1: "buffer_head rb1 < buffer_length rb1"
      using cpos "1.prems"(2) by (simp add: rb1_def word_mod_less_divisor)
    have le1: "idx + 1 \<le> len" using True by (rule inc_le)
    note IH = "1.IH"[OF True, folded rb1_def pos1_def items1_def, OF le1 h1]
    have ui: "unat (idx + 1) = Suc (unat idx)" using True by (rule unat_succ_below)
    have il: "unat idx < unat len" using True by (simp add: word_less_nat_alt)
    show ?thesis
    proof (cases "idx < keep")
      case k: True
      then have ik: "unat idx < unat keep" by (simp add: word_less_nat_alt)
      have uh1: "unat (buffer_head rb1) = Suc (unat (buffer_head rb)) mod unat ?c"
        using k "1.prems"(2) by (simp add: rb1_def unat_inc_mod)
      have cnt: "min (unat keep) (unat len) - unat idx = Suc (min (unat keep) (unat len) - unat (idx + 1))"
        using ik il by (simp add: ui)
      have sz: "buffer_size rb1 - of_nat (min (unat keep) (unat len) - unat (idx + 1))
          = buffer_size rb - of_nat (min (unat keep) (unat len) - unat idx)"
        using k by (simp add: rb1_def cnt)
      have hd: "(unat (buffer_head rb1) + (min (unat keep) (unat len) - unat (idx + 1))) mod unat ?c
          = (unat (buffer_head rb) + (min (unat keep) (unat len) - unat idx)) mod unat ?c"
        by (simp only: uh1 cnt mod_Suc_add)
      show ?thesis using IH by (simp only: step same sz hd)
    next
      case k: False
      then have ik: "unat keep \<le> unat idx" by (simp add: word_less_nat_alt)
      have r: "rb1 = rb" using k by (simp add: rb1_def)
      have z: "min (unat keep) (unat len) - unat (idx + 1) = 0"
          "min (unat keep) (unat len) - unat idx = 0"
        using ik by (simp_all add: ui)
      show ?thesis using IH by (simp add: step r z)
    qed
  next
    case False
    then have eq: "idx = len" using "1.prems"(1) by simp
    have "dequeue_loop len keep idx pos items rb = (items, rb)"
      using False by (subst dequeue_loop.simps) simp
    then show ?thesis using "1.prems"(2) eq
      by (simp add: word_less_nat_alt)
  qed
qed

lemma dequeue_loop_items:
  assumes "idx \<le> len" "pos < buffer_length rb"
  shows "length (fst (dequeue_loop len keep idx pos items rb)) = length items \<and>
         (\<forall>j < length items. fst (dequeue_loop len keep idx pos items rb) ! j =
            (if unat idx \<le> j \<and> j < unat len
             then buffer rb ! ((unat pos + (j - unat idx)) mod unat (buffer_length rb))
             else items ! j))"
  using assms
proof (induction len keep idx pos items rb rule: dequeue_loop.induct)
  case (1 len keep idx pos items rb)
  let ?c = "buffer_length rb"
  show ?case
  proof (cases "idx < len")
    case True
    define rb1 where "rb1 = (if idx < keep
           then rb\<lparr>buffer_head := (buffer_head rb + 1) mod ?c,
                   buffer_size := buffer_size rb - 1\<rparr>
           else rb)"
    define pos1 where "pos1 = (pos + 1) mod ?c"
    define items1 where "items1 = items[unat idx := buffer rb ! unat pos]"
    have step: "dequeue_loop len keep idx pos items rb = dequeue_loop len keep (idx + 1) pos1 items1 rb1"
      using True by (subst dequeue_loop.simps) (simp add: rb1_def pos1_def items1_def)
    have cpos: "0 < ?c" using "1.prems"(2) by (rule word_pos_if_less)
    have same: "buffer_length rb1 = ?c" "buffer rb1 = buffer rb"
      by (simp_all add: rb1_def)
    have p1: "pos1 < buffer_length rb1"
      using cpos by (simp add: same pos1_def word_mod_less_divisor)
    have le1: "idx + 1 \<le> len" using True by (rule inc_le)
    note IH = "1.IH"[OF True, folded rb1_def pos1_def items1_def, OF le1 p1]
    have ui: "unat (idx + 1) = Suc (unat idx)" using True by (rule unat_succ_below)
    have up1: "unat pos1 = Suc (unat pos) mod unat ?c"
      using "1.prems"(2) by (simp add: pos1_def unat_inc_mod)
    have plt: "unat pos < unat ?c" using "1.prems"(2) by (simp add: word_less_nat_alt)
    have len1: "length items1 = length items" by (simp add: items1_def)
    show ?thesis
    proof (intro conjI allI impI)
      show "length (fst (dequeue_loop len keep idx pos items rb)) = length items"
        using IH by (simp add: step len1)
    next
      fix j assume j: "j < length items"
      have r: "fst (dequeue_loop len keep idx pos items rb) ! j =
            (if Suc (unat idx) \<le> j \<and> j < unat len
             then buffer rb ! ((unat pos1 + (j - Suc (unat idx))) mod unat ?c)
             else items1 ! j)"
        using IH j by (simp add: step len1 same ui)
      show "fst (dequeue_loop len keep idx pos items rb) ! j =
            (if unat idx \<le> j \<and> j < unat len
             then buffer rb ! ((unat pos + (j - unat idx)) mod unat ?c)
             else items ! j)"
      proof (cases "j = unat idx")
        case True
        have "unat idx < unat len" using \<open>idx < len\<close> by (simp add: word_less_nat_alt)
        then have "fst (dequeue_loop len keep idx pos items rb) ! j = items1 ! j"
          unfolding r using True by simp
        also have "\<dots> = buffer rb ! unat pos"
          using True j by (simp add: items1_def)
        finally show ?thesis using True \<open>unat idx < unat len\<close> plt by simp
      next
        case False
        have "Suc (unat idx) \<le> j \<Longrightarrow>
            (unat pos1 + (j - Suc (unat idx))) mod unat ?c = (unat pos + (j - unat idx)) mod unat ?c"
          unfolding up1 by (rule mod_Suc_shift)
        moreover have "(Suc (unat idx) \<le> j) = (unat idx \<le> j)" using False by arith
        ultimately show ?thesis using False by (auto simp add: r items1_def)
      qed
    qed
  next
    case False
    have "dequeue_loop len keep idx pos items rb = (items, rb)"
      using False by (subst dequeue_loop.simps) simp
    moreover have "unat len \<le> unat idx" using False by (simp add: word_less_nat_alt not_less)
    ultimately show ?thesis by auto
  qed
qed

lemma dequeue_bulk_ok:
  assumes inv: "rb_inv rb" and ln: "len \<le> buffer_size rb" and ov: "overlap \<le> len"
    and c0: "buffer_length rb \<noteq> 0"
  shows "fst (dequeue_bulk items len overlap rb) = True"
    and "rb_inv (snd (snd (dequeue_bulk items len overlap rb)))"
    and "contents (snd (snd (dequeue_bulk items len overlap rb))) =
           drop (unat (len - overlap)) (contents rb)"
    and "buffer_size (snd (snd (dequeue_bulk items len overlap rb))) =
           buffer_size rb - (len - overlap)"
    and "unat (buffer_head (snd (snd (dequeue_bulk items len overlap rb)))) =
           (unat (buffer_head rb) + unat (len - overlap)) mod unat (buffer_length rb)"
    and "buffer_length (snd (snd (dequeue_bulk items len overlap rb))) = buffer_length rb"
    and "buffer (snd (snd (dequeue_bulk items len overlap rb))) = buffer rb"
    and "length (fst (snd (dequeue_bulk items len overlap rb))) = length items"
    and "\<forall>j < length items. fst (snd (dequeue_bulk items len overlap rb)) ! j =
           (if j < unat len then contents rb ! j else items ! j)"
proof -
  let ?c = "buffer_length rb"
  let ?h = "buffer_head rb"
  let ?k = "len - overlap"
  let ?r = "dequeue_loop len ?k 0 ?h items rb"
  have szc: "buffer_size rb \<le> ?c" using inv by (simp add: rb_inv_def)
  have lc: "len \<le> ?c" using ln szc by simp
  have hd: "?h < ?c" and tl: "buffer_tail rb < ?c"
    using inv c0 by (auto simp: rb_inv_def word_gt_0)
  have e: "dequeue_bulk items len overlap rb = (True, fst ?r, snd ?r)"
    using lc ln ov c0 by (simp add: dequeue_bulk_def Let_def not_less split: prod.splits)
  have kl: "?k \<le> len" using ov by unat_arith
  have uk: "unat ?k \<le> unat len" using kl by (simp add: word_le_nat_alt)
  have un: "unat len \<le> unat (buffer_size rb)" using ln by (simp add: word_le_nat_alt)
  have nc: "unat (buffer_size rb) \<le> unat ?c" using szc by (simp add: word_le_nat_alt)
  have mn: "min (unat ?k) (unat len) - unat (0::size_t) = unat ?k" using uk by simp
  note st = dequeue_loop_state[of 0 len rb ?k ?h items, simplified mn, OF _ hd]
  note it = dequeue_loop_items[of 0 len ?h rb ?k items, OF _ hd]
  have ksz: "?k \<le> buffer_size rb" using kl ln by simp
  have usz: "unat (buffer_size rb - ?k) = unat (buffer_size rb) - unat ?k"
    using ksz by (simp add: unat_sub)
  show "fst (dequeue_bulk items len overlap rb) = True" by (simp add: e)
  show "buffer_size (snd (snd (dequeue_bulk items len overlap rb))) = buffer_size rb - ?k"
    using st by (simp add: e)
  show "unat (buffer_head (snd (snd (dequeue_bulk items len overlap rb)))) =
           (unat ?h + unat ?k) mod unat ?c"
    using st by (simp add: e)
  show "buffer_length (snd (snd (dequeue_bulk items len overlap rb))) = ?c"
    using st by (simp add: e)
  show "buffer (snd (snd (dequeue_bulk items len overlap rb))) = buffer rb"
    using st by (simp add: e)
  show "length (fst (snd (dequeue_bulk items len overlap rb))) = length items"
    using it by (simp add: e)
  have teq: "unat (buffer_tail rb) = (unat ?h + unat (buffer_size rb)) mod unat ?c"
    using inv by (simp add: rb_inv_def)
  have shift: "((unat ?h + unat ?k) mod unat ?c + (unat (buffer_size rb) - unat ?k)) mod unat ?c
      = (unat ?h + unat (buffer_size rb)) mod unat ?c"
    using uk un by (intro mod_shift_diff) simp
  have nkc: "unat (buffer_size rb) - unat ?k \<le> unat ?c" using nc by arith
  show "rb_inv (snd (snd (dequeue_bulk items len overlap rb)))"
    using st inv c0 tl nkc
    by (simp add: e rb_inv_def word_gt_0 usz shift teq word_le_nat_alt)
  show "contents (snd (snd (dequeue_bulk items len overlap rb))) = drop (unat ?k) (contents rb)"
  proof (rule nth_equalityI)
    show "length (contents (snd (snd (dequeue_bulk items len overlap rb)))) =
        length (drop (unat ?k) (contents rb))"
      using st by (simp add: e length_contents usz)
  next
    fix i assume "i < length (contents (snd (snd (dequeue_bulk items len overlap rb))))"
    then have i: "i < unat (buffer_size rb) - unat ?k"
      using st by (simp add: e length_contents usz)
    then have i': "i < unat (buffer_size (snd ?r))" using st by (simp add: usz)
    have "((unat ?h + unat ?k) mod unat ?c + i) mod unat ?c = (unat ?h + (unat ?k + i)) mod unat ?c"
      by (simp add: mod_add_left_eq add.assoc)
    then have "contents (snd ?r) ! i = buffer rb ! ((unat ?h + (unat ?k + i)) mod unat ?c)"
      using st nth_contents[OF i'] by simp
    also have "\<dots> = contents rb ! (unat ?k + i)"
      using i by (simp add: nth_contents)
    finally show "contents (snd (snd (dequeue_bulk items len overlap rb))) ! i =
        drop (unat ?k) (contents rb) ! i"
      using i by (simp add: e length_contents)
  qed
  show "\<forall>j < length items. fst (snd (dequeue_bulk items len overlap rb)) ! j =
           (if j < unat len then contents rb ! j else items ! j)"
  proof (intro allI impI)
    fix j assume j: "j < length items"
    show "fst (snd (dequeue_bulk items len overlap rb)) ! j =
           (if j < unat len then contents rb ! j else items ! j)"
      using it j un by (simp add: e nth_contents)
  qed
qed

subsection \<open>Preservation of the invariant\<close>

lemma enqueue_bulk_inv:
  assumes inv: "rb_inv rb" and bound: "unat (buffer_length rb) < 2 ^ 63"
  shows "rb_inv (snd (enqueue_bulk items len rb))"
proof (cases "len > buffer_length rb \<or> buffer_length rb = 0")
  case True
  then show ?thesis using inv by (simp add: enqueue_bulk_def)
next
  case False
  let ?c = "buffer_length rb"
  let ?h = "buffer_head rb"
  let ?n = "buffer_size rb"
  have lc: "len \<le> ?c" and c0: "?c \<noteq> 0" using False by auto
  have hd: "?h < ?c" and tl: "buffer_tail rb < ?c"
    using inv c0 by (auto simp: rb_inv_def word_gt_0)
  have cpos: "0 < ?c" using c0 by (simp add: word_gt_0)
  have nc: "unat ?n \<le> unat ?c" using inv by (simp add: rb_inv_def word_le_nat_alt)
  have ul: "unat len \<le> unat ?c" using lc by (simp add: word_le_nat_alt)
  have uh: "unat ?h < unat ?c" using hd by (simp add: word_less_nat_alt)
  have teq: "unat (buffer_tail rb) = (unat ?h + unat ?n) mod unat ?c"
    using inv by (simp add: rb_inv_def)
  have len_buf: "length (buffer rb) = unat ?c" using inv by (simp add: rb_inv_def)
  have "unat ?n + unat len < 2 ^ 64" using nc ul bound by simp
  then have unl: "unat (?n + len) = unat ?n + unat len"
    by (simp add: unat_add_lem[THEN iffD1])
  have "unat ?h + unat len < 2 ^ 64" using uh ul bound by simp
  then have uhl: "unat (?h + len) = unat ?h + unat len"
    by (simp add: unat_add_lem[THEN iffD1])
  show ?thesis
  proof (cases "?n + len \<ge> ?c")
    case True
    define rb1 where "rb1 = rb\<lparr>buffer_head := (?h + len) mod ?c, buffer_size := ?n - len\<rparr>"
    have e: "enqueue_bulk items len rb = (True, enqueue_loop items len 0 rb1)"
      using False True by (simp add: enqueue_bulk_def rb1_def)
    have t1: "buffer_tail rb1 < buffer_length rb1" using tl by (simp add: rb1_def)
    note ef = enqueue_loop_effect[of 0 len rb1 items, OF _ t1]
    have h1: "unat (buffer_head rb1) = (unat ?h + unat len) mod unat ?c"
      by (simp add: rb1_def unat_mod uhl)
    have h1lt: "buffer_head rb1 < ?c" using cpos by (simp add: rb1_def word_mod_less_divisor)
    have "(unat (buffer_tail rb) + unat len) mod unat ?c
        = (unat (buffer_head rb1) + unat ?n) mod unat ?c"
      unfolding teq h1 by (rule mod_add_mod_add)
    then show ?thesis
      using ef inv c0 h1lt
      by (simp add: e rb_inv_def rb1_def word_gt_0)
  next
    case ne: False
    have e: "enqueue_bulk items len rb = (True, enqueue_loop items len 0 rb)"
      using False ne by (simp add: enqueue_bulk_def)
    note ef = enqueue_loop_effect[of 0 len rb items, OF _ tl]
    have "?n + len < ?c" using ne by simp
    then have lt: "unat ?n + unat len < unat ?c" by (simp add: word_less_nat_alt unl)
    have "(unat (buffer_tail rb) + unat len) mod unat ?c
        = (unat ?h + (unat ?n + unat len)) mod unat ?c"
      unfolding teq by (simp add: mod_add_left_eq add.assoc)
    then show ?thesis
      using ef inv c0 hd lt
      by (simp add: e rb_inv_def word_gt_0 word_le_nat_alt unl)
  qed
qed

lemma rb_inv_clear: "rb_inv (clear dflt rb)"
  by (simp add: clear_def rb_inv_def)

lemma clear_call_free: "clear_call False dflt rb = Returns (clear dflt rb)"
  by (simp add: clear_call_def)

lemma resize_blocks:
  "resize dflt len rb = Blocks (rb\<lparr>buffer_length := len, buffer := replicate (unat len) dflt\<rparr>)"
  by (simp add: resize_def clear_call_def Let_def)

lemma rb_inv_RingBuffer: "rb_inv (RingBuffer dflt len)"
  by (simp add: RingBuffer_def rb_inv_def)

lemma rb_inv_enqueue:
  assumes "rb_inv rb"
  shows "rb_inv (snd (enqueue x rb))"
proof (cases "buffer_length rb = 0")
  case True
  then show ?thesis using assms by (simp add: enqueue_def)
next
  case False
  show ?thesis
  proof (cases "buffer_size rb < buffer_length rb")
    case True
    then show ?thesis using assms by (rule enqueue_not_full(2)[rotated])
  next
    case nl: False
    then have "buffer_size rb = buffer_length rb"
      using assms by (simp add: rb_inv_def)
    then show ?thesis using assms False by (intro enqueue_full(2))
  qed
qed

lemma rb_inv_dequeue:
  assumes "rb_inv rb"
  shows "rb_inv (snd (dequeue rb))"
proof (cases "buffer_size rb = 0")
  case True
  then show ?thesis using assms by (simp add: dequeue_def empty_rb_def)
next
  case False
  then show ?thesis using assms by (intro dequeue_nonempty(2))
qed

lemma rb_inv_dequeue_bulk:
  assumes "rb_inv rb"
  shows "rb_inv (snd (snd (dequeue_bulk items len overlap rb)))"
proof (cases "len > buffer_length rb \<or> buffer_length rb = 0 \<or> overlap > len \<or> len > buffer_size rb")
  case True
  then show ?thesis using assms by (auto simp add: dequeue_bulk_def)
next
  case False
  then show ?thesis using assms by (intro dequeue_bulk_ok(2)) auto
qed

text \<open>
  The calls that return keep the invariant, whether they succeed or fail. The two
  \<open>front\<close> methods assign no member. The bulk \<open>enqueue\<close> adds \<open>length\<close> to
  \<open>buffer_head\<close> and to \<open>buffer_size\<close> in \<open>std::size_t\<close>; these sums stay below
  \<open>2 ^ 64\<close> for every array that can be allocated (at most \<open>PTRDIFF_MAX = 2 ^ 63 - 1\<close>
  elements), which is the bound assumed for it. The state in which \<open>resize\<close> blocks
  need not satisfy the invariant.
\<close>

lemma rb_inv_kept:
  assumes "rb_inv rb"
  shows "rb_inv (clear dflt rb) \<and>
         rb_inv (snd (enqueue x rb)) \<and>
         (unat (buffer_length rb) < 2 ^ 63 \<longrightarrow> rb_inv (snd (enqueue_bulk items len rb))) \<and>
         rb_inv (snd (dequeue rb)) \<and>
         rb_inv (snd (snd (dequeue_bulk out len overlap rb)))"
  using assms
  by (simp add: rb_inv_clear rb_inv_enqueue enqueue_bulk_inv rb_inv_dequeue
      rb_inv_dequeue_bulk)

lemma resize_breaks_rb_inv:
  "rb_inv (enqueue_seq [1, 2 :: nat] (RingBuffer 0 2)) \<and>
   (\<exists>s. resize 0 1 (enqueue_seq [1, 2 :: nat] (RingBuffer 0 2)) = Blocks s \<and> \<not> rb_inv s)"
  by (simp add: resize_blocks enqueue_def full_def RingBuffer_def rb_inv_def)

subsection \<open>Sequences of single-element calls\<close>

lemma enqueue_seq_contents:
  assumes "rb_inv rb" "unat (buffer_size rb) + length xs \<le> unat (buffer_length rb)"
  shows "rb_inv (enqueue_seq xs rb) \<and>
         contents (enqueue_seq xs rb) = contents rb @ xs \<and>
         buffer_length (enqueue_seq xs rb) = buffer_length rb \<and>
         unat (buffer_size (enqueue_seq xs rb)) = unat (buffer_size rb) + length xs"
  using assms
proof (induction xs arbitrary: rb)
  case Nil
  then show ?case by simp
next
  case (Cons x xs)
  have lt: "buffer_size rb < buffer_length rb"
    using Cons.prems(2) by (simp add: word_less_nat_alt)
  note nf = enqueue_not_full[OF Cons.prems(1) lt, of x]
  have sz: "unat (buffer_size (snd (enqueue x rb))) = Suc (unat (buffer_size rb))"
    using nf(4) lt by (simp add: unat_succ_below)
  have "unat (buffer_size (snd (enqueue x rb))) + length xs \<le> unat (buffer_length (snd (enqueue x rb)))"
    using Cons.prems(2) by (simp add: sz nf(5))
  from Cons.IH[OF nf(2) this] show ?case
    by (simp add: nf(3) nf(5) sz)
qed

lemma dequeue_seq_contents:
  assumes "rb_inv rb" "n \<le> unat (buffer_size rb)"
  shows "fst (dequeue_seq n rb) = map Some (take n (contents rb))"
  using assms
proof (induction n arbitrary: rb)
  case 0
  then show ?case by simp
next
  case (Suc n)
  have ne: "buffer_size rb \<noteq> 0" using Suc.prems(2) by (auto simp: unat_eq_zero)
  note dq = dequeue_nonempty[OF Suc.prems(1) ne]
  have sz: "unat (buffer_size (snd (dequeue rb))) = unat (buffer_size rb) - 1"
    using ne by (simp add: dq(4) unat_minus_one)
  have "n \<le> unat (buffer_size (snd (dequeue rb)))" using Suc.prems(2) by (simp add: sz)
  note IH = Suc.IH[OF dq(2) this]
  have cne: "contents rb \<noteq> []" using Suc.prems(2) length_contents[of rb] by auto
  then have tk: "take (Suc n) (contents rb) = hd (contents rb) # take n (tl (contents rb))"
    by (cases "contents rb") simp_all
  obtain r rb' where d: "dequeue rb = (r, rb')" by (cases "dequeue rb")
  obtain rs rb'' where ds: "dequeue_seq n rb' = (rs, rb'')" by (cases "dequeue_seq n rb'")
  show ?case using IH dq(1) dq(3)
    by (simp add: d ds tk)
qed

subsection \<open>Properties of the ring buffer\<close>

text \<open>
  Claim C2. On a buffer that satisfies the invariant, single-element enqueues of the
  elements of \<open>xs\<close> that do not take the count beyond the capacity are followed by
  dequeues in insertion order: draining the buffer returns what was stored before, then
  the elements of \<open>xs\<close> in order. In particular, from an empty buffer (just constructed,
  cleared or drained), \<open>length xs\<close> dequeues return exactly \<open>xs\<close>. (The capacity is
  positive as soon as \<open>xs\<close> is not empty.)
\<close>

theorem enqueue_dequeue_fifo:
  assumes "rb_inv rb" and "unat (buffer_size rb) + length xs \<le> unat (buffer_length rb)"
  shows "fst (dequeue_seq (unat (buffer_size rb) + length xs) (enqueue_seq xs rb)) =
           fst (dequeue_seq (unat (buffer_size rb)) rb) @ map Some xs \<and>
         (empty_rb rb \<longrightarrow>
            fst (dequeue_seq (length xs) (enqueue_seq xs rb)) = map Some xs)"
proof -
  note eq = enqueue_seq_contents[OF assms]
  have a: "fst (dequeue_seq (unat (buffer_size rb)) rb) = map Some (contents rb)"
    using dequeue_seq_contents[OF assms(1), of "unat (buffer_size rb)"] length_contents[of rb]
    by simp
  have "unat (buffer_size rb) + length xs \<le> unat (buffer_size (enqueue_seq xs rb))"
    using eq by simp
  from dequeue_seq_contents[OF _ this] eq
  have b: "fst (dequeue_seq (unat (buffer_size rb) + length xs) (enqueue_seq xs rb)) =
      map Some (contents rb @ xs)"
    by (simp add: length_contents)
  have c: "empty_rb rb \<longrightarrow> fst (dequeue_seq (length xs) (enqueue_seq xs rb)) = map Some xs"
  proof
    assume "empty_rb rb"
    then have z: "unat (buffer_size rb) = 0" by (simp add: empty_rb_def)
    then have "contents rb = []" by (simp add: contents_def)
    then show "fst (dequeue_seq (length xs) (enqueue_seq xs rb)) = map Some xs"
      using b z by simp
  qed
  show ?thesis using a b c by simp
qed

theorem enqueue_dequeue_fifo_witness:
  "rb_inv (RingBuffer (0::nat) 3) \<and>
   unat (buffer_size (RingBuffer (0::nat) 3)) + length [10, 20, 30 :: nat]
     \<le> unat (buffer_length (RingBuffer (0::nat) 3)) \<and>
   empty_rb (RingBuffer (0::nat) 3) \<and>
   fst (dequeue_seq (length [10, 20, 30 :: nat])
          (enqueue_seq [10, 20, 30 :: nat] (RingBuffer (0::nat) 3))) =
     [Some 10, Some 20, Some (30::nat)]"
proof -
  have h1: "rb_inv (RingBuffer (0::nat) 3)"
    by (simp add: rb_inv_def RingBuffer_def)
  have h2: "unat (buffer_size (RingBuffer (0::nat) 3)) + length [10, 20, 30 :: nat]
     \<le> unat (buffer_length (RingBuffer (0::nat) 3))"
    by (simp add: RingBuffer_def)
  have h3: "empty_rb (RingBuffer (0::nat) 3)"
    by (simp add: empty_rb_def RingBuffer_def)
  show ?thesis
    using h1 h2 h3 enqueue_dequeue_fifo[OF h1 h2] by simp
qed

text \<open>
  Claim C3 fails on the code for \<open>resize\<close>. Its call to \<open>clear()\<close> locks the mutex
  that \<open>resize\<close> itself holds, so \<open>resize\<close> never returns and head, tail and count are
  not reset, while \<open>buffer_length\<close> is already the new one. On a buffer of capacity 2
  holding two elements, \<open>resize(1)\<close> leaves capacity 1 with count 2: the invariant
  \<open>count \<le> capacity\<close> is broken. (The other operations keep the invariant: lemma
  \<open>rb_inv_kept\<close>.)
\<close>

theorem resize_blocks_with_stale_count:
  "\<exists>s. resize (0::nat) 1 (enqueue_seq [1, 2] (RingBuffer 0 2)) = Blocks s \<and>
        buffer_length s = 1 \<and> buffer_size s = 2 \<and> buffer_head s = 0 \<and> buffer_tail s = 0 \<and>
        \<not> buffer_size s \<le> buffer_length s"
  by (simp add: resize_blocks enqueue_def full_def RingBuffer_def word_le_nat_alt)

text \<open>
  Claim C5. On a full buffer of positive capacity the single-element \<open>enqueue\<close>
  returns true, leaves \<open>size()\<close> equal to the capacity, drops exactly the oldest
  element and stores the new item as the newest: the stored sequence becomes the old one
  without its head, followed by the item, and so does what draining the buffer returns.
\<close>

theorem enqueue_full_evicts_oldest:
  assumes "rb_inv rb" and "0 < buffer_length rb" and "buffer_size rb = buffer_length rb"
  shows "fst (enqueue x rb) \<and>
         size_rb (snd (enqueue x rb)) = buffer_length rb \<and>
         length_rb (snd (enqueue x rb)) = buffer_length rb \<and>
         contents (snd (enqueue x rb)) = tl (contents rb) @ [x] \<and>
         fst (dequeue_seq (unat (buffer_length rb)) (snd (enqueue x rb))) =
           tl (fst (dequeue_seq (unat (buffer_length rb)) rb)) @ [Some x]"
proof -
  have c0: "buffer_length rb \<noteq> 0" using assms(2) by simp
  note ef = enqueue_full[OF assms(1) c0 assms(3), of x]
  have a: "fst (dequeue_seq (unat (buffer_length rb)) rb) = map Some (contents rb)"
    using dequeue_seq_contents[OF assms(1), of "unat (buffer_length rb)"] length_contents[of rb]
    by (simp add: assms(3))
  have "length (contents (snd (enqueue x rb))) = unat (buffer_length rb)"
    by (simp add: length_contents ef(4))
  then have b: "fst (dequeue_seq (unat (buffer_length rb)) (snd (enqueue x rb)))
      = map Some (tl (contents rb) @ [x])"
    using dequeue_seq_contents[OF ef(2), of "unat (buffer_length rb)"]
    by (simp add: ef(4) ef(3))
  show ?thesis
    using ef by (simp add: size_rb_def length_rb_def a b map_tl)
qed

theorem enqueue_full_evicts_oldest_witness:
  "rb_inv (enqueue_seq [1, 2 :: nat] (RingBuffer 0 2)) \<and>
   0 < buffer_length (enqueue_seq [1, 2 :: nat] (RingBuffer 0 2)) \<and>
   buffer_size (enqueue_seq [1, 2 :: nat] (RingBuffer 0 2)) =
     buffer_length (enqueue_seq [1, 2 :: nat] (RingBuffer 0 2)) \<and>
   fst (enqueue 3 (enqueue_seq [1, 2 :: nat] (RingBuffer 0 2))) \<and>
   size_rb (snd (enqueue 3 (enqueue_seq [1, 2 :: nat] (RingBuffer 0 2)))) = 2 \<and>
   contents (enqueue_seq [1, 2 :: nat] (RingBuffer 0 2)) = [1, 2] \<and>
   contents (snd (enqueue 3 (enqueue_seq [1, 2 :: nat] (RingBuffer 0 2)))) = [2, 3]"
proof -
  let ?rb = "enqueue_seq [1, 2 :: nat] (RingBuffer 0 2)"
  have h1: "rb_inv ?rb" by code_simp
  have h2: "0 < buffer_length ?rb" by code_simp
  have h3: "buffer_size ?rb = buffer_length ?rb" by code_simp
  have c: "contents ?rb = [1, 2]" by code_simp
  have l: "buffer_length ?rb = 2" by code_simp
  show ?thesis
    using h1 h2 h3 c l enqueue_full_evicts_oldest[OF h1 h2 h3, of 3]
    by simp
qed

text \<open>
  Claim C4. With positive capacity, \<open>length \<le> count\<close>, \<open>length \<le> capacity\<close> and
  \<open>overlap \<le> length\<close> (and output arrays large enough for the elements read), the
  bulk \<open>dequeue\<close> succeeds, writes the \<open>length\<close> oldest elements, in order from
  \<open>buffer_head\<close>, to the output, advances \<open>buffer_head\<close> by \<open>length - overlap\<close> modulo
  the capacity and decrements \<open>buffer_size\<close> by \<open>length - overlap\<close>; a following bulk
  \<open>dequeue\<close> of \<open>overlap\<close> elements succeeds and returns the last \<open>overlap\<close> elements
  of the first read.
\<close>

theorem dequeue_bulk_overlap:
  assumes "rb_inv rb" and "0 < buffer_length rb"
    and "len \<le> buffer_size rb" and "len \<le> buffer_length rb" and "overlap \<le> len"
    and "unat len \<le> length items" and "unat overlap \<le> length items2"
    and "overlap2 \<le> overlap"
  shows "let r = dequeue_bulk items len overlap rb;
             out = fst (snd r); rb' = snd (snd r);
             r2 = dequeue_bulk items2 overlap overlap2 rb';
             out2 = fst (snd r2)
         in fst r \<and>
            (\<forall>j < unat len. out ! j =
               buffer rb ! ((unat (buffer_head rb) + j) mod unat (buffer_length rb))) \<and>
            take (unat len) out = take (unat len) (contents rb) \<and>
            unat (buffer_head rb') =
              (unat (buffer_head rb) + unat (len - overlap)) mod unat (buffer_length rb) \<and>
            buffer_size rb' = buffer_size rb - (len - overlap) \<and>
            fst r2 \<and>
            take (unat overlap) out2 = drop (unat (len - overlap)) (take (unat len) out)"
proof -
  let ?r = "dequeue_bulk items len overlap rb"
  let ?out = "fst (snd ?r)"
  let ?rb' = "snd (snd ?r)"
  let ?r2 = "dequeue_bulk items2 overlap overlap2 ?rb'"
  let ?out2 = "fst (snd ?r2)"
  let ?k = "len - overlap"
  have c0: "buffer_length rb \<noteq> 0" using assms(2) by simp
  note d1 = dequeue_bulk_ok[OF assms(1) assms(3) assms(5) c0, of items]
  have un: "unat len \<le> unat (buffer_size rb)" using assms(3) by (simp add: word_le_nat_alt)
  have uo: "unat overlap \<le> unat len" using assms(5) by (simp add: word_le_nat_alt)
  have uk: "unat ?k = unat len - unat overlap" using assms(5) by (simp add: unat_sub)
  have "?k \<le> len" using assms(5) by unat_arith
  then have ksz: "?k \<le> buffer_size rb" using assms(3) by simp
  have usz: "unat (buffer_size rb - ?k) = unat (buffer_size rb) - unat ?k"
    using ksz by (simp add: unat_sub)
  have "unat overlap \<le> unat (buffer_size ?rb')"
    using un uo by (simp add: d1(4) usz uk)
  then have o2: "overlap \<le> buffer_size ?rb'" by (simp add: word_le_nat_alt)
  have c0': "buffer_length ?rb' \<noteq> 0" using c0 by (simp add: d1(6))
  note d2 = dequeue_bulk_ok[OF d1(2) o2 assms(8) c0', of items2]
  have elems: "\<forall>j < unat len. ?out ! j =
      buffer rb ! ((unat (buffer_head rb) + j) mod unat (buffer_length rb))"
  proof (intro allI impI)
    fix j assume j: "j < unat len"
    then have "j < length items" using assms(6) by simp
    then have "?out ! j = contents rb ! j" using d1(9) j by simp
    then show "?out ! j = buffer rb ! ((unat (buffer_head rb) + j) mod unat (buffer_length rb))"
      using j un by (simp add: nth_contents)
  qed
  have t1: "take (unat len) ?out = take (unat len) (contents rb)"
  proof (rule nth_equalityI)
    show "length (take (unat len) ?out) = length (take (unat len) (contents rb))"
      using assms(6) un by (simp add: d1(8) length_contents)
  next
    fix j assume "j < length (take (unat len) ?out)"
    then have j: "j < unat len" by simp
    then have "j < length items" using assms(6) by simp
    then show "take (unat len) ?out ! j = take (unat len) (contents rb) ! j"
      using d1(9) j by simp
  qed
  have t2: "take (unat overlap) ?out2 = take (unat overlap) (contents ?rb')"
  proof (rule nth_equalityI)
    show "length (take (unat overlap) ?out2) = length (take (unat overlap) (contents ?rb'))"
      using assms(7) \<open>unat overlap \<le> unat (buffer_size ?rb')\<close>
      by (simp add: d2(8) length_contents)
  next
    fix j assume "j < length (take (unat overlap) ?out2)"
    then have j: "j < unat overlap" by simp
    then have "j < length items2" using assms(7) by simp
    then show "take (unat overlap) ?out2 ! j = take (unat overlap) (contents ?rb') ! j"
      using d2(9) j by simp
  qed
  have "take (unat overlap) (drop (unat ?k) (contents rb))
      = drop (unat ?k) (take (unat len) (contents rb))"
    using uo by (simp add: uk drop_take)
  then have t3: "take (unat overlap) ?out2 = drop (unat ?k) (take (unat len) ?out)"
    by (simp add: t2 d1(3) t1)
  show ?thesis
    unfolding Let_def
    using d1(1) d2(1) elems t1 d1(5) d1(4) t3 by blast
qed

theorem dequeue_bulk_overlap_witness:
  "rb_inv (enqueue_seq [1, 2, 3, 4 :: nat] (RingBuffer 0 4)) \<and>
   0 < buffer_length (enqueue_seq [1, 2, 3, 4 :: nat] (RingBuffer 0 4)) \<and>
   (3 :: size_t) \<le> buffer_size (enqueue_seq [1, 2, 3, 4 :: nat] (RingBuffer 0 4)) \<and>
   (3 :: size_t) \<le> buffer_length (enqueue_seq [1, 2, 3, 4 :: nat] (RingBuffer 0 4)) \<and>
   (1 :: size_t) \<le> 3 \<and>
   unat (3 :: size_t) \<le> length [0, 0, 0 :: nat] \<and>
   unat (1 :: size_t) \<le> length [0 :: nat] \<and>
   (0 :: size_t) \<le> 1 \<and>
   fst (dequeue_bulk [0, 0, 0] 3 1 (enqueue_seq [1, 2, 3, 4 :: nat] (RingBuffer 0 4))) \<and>
   take (unat (3 :: size_t))
     (fst (snd (dequeue_bulk [0, 0, 0] 3 1 (enqueue_seq [1, 2, 3, 4 :: nat] (RingBuffer 0 4)))))
     = [1, 2, 3] \<and>
   buffer_size
     (snd (snd (dequeue_bulk [0, 0, 0] 3 1 (enqueue_seq [1, 2, 3, 4 :: nat] (RingBuffer 0 4)))))
     = 2 \<and>
   take (unat (1 :: size_t))
     (fst (snd (dequeue_bulk [0] 1 0
        (snd (snd (dequeue_bulk [0, 0, 0] 3 1
           (enqueue_seq [1, 2, 3, 4 :: nat] (RingBuffer 0 4))))))))
     = [3]"
proof -
  let ?rb = "enqueue_seq [1, 2, 3, 4 :: nat] (RingBuffer 0 4)"
  have h1: "rb_inv ?rb" by code_simp
  have h2: "0 < buffer_length ?rb" by code_simp
  have h3: "(3 :: size_t) \<le> buffer_size ?rb" by code_simp
  have h4: "(3 :: size_t) \<le> buffer_length ?rb" by code_simp
  have h5: "(1 :: size_t) \<le> 3" by simp
  have h6: "unat (3 :: size_t) \<le> length [0, 0, 0 :: nat]" by simp
  have h7: "unat (1 :: size_t) \<le> length [0 :: nat]" by simp
  have h8: "(0 :: size_t) \<le> 1" by simp
  have c: "take (unat (3 :: size_t)) (contents ?rb) = [1, 2, 3]" by code_simp
  have s: "buffer_size ?rb - (3 - 1) = 2" by code_simp
  have d: "drop (unat ((3 :: size_t) - 1)) [1, 2, 3 :: nat] = [3]" by code_simp
  note t = dequeue_bulk_overlap[OF h1 h2 h3 h4 h5 h6 h7 h8, unfolded Let_def]
  show ?thesis
    using h1 h2 h3 h4 h5 h6 h7 h8 t c s d by simp
qed

text \<open>
  Claim C6. The listed misuses are rejected: on a zero-capacity buffer every
  \<open>enqueue\<close>, \<open>dequeue\<close> and \<open>front\<close> fails; the bulk \<open>enqueue\<close> fails for
  \<open>length > capacity\<close>; the bulk \<open>dequeue\<close> fails for \<open>length > capacity\<close>,
  \<open>overlap > length\<close> or \<open>count < length\<close>; the bulk \<open>front\<close> fails for
  \<open>length > count\<close>. Failure is the returned \<open>false\<close> or \<open>std::nullopt\<close>, and whenever
  an operation reports failure the buffer state and the caller's output array are the
  ones it was given.
\<close>

theorem failure_leaves_state:
  "(buffer_length rb = 0 \<longrightarrow>
      enqueue x rb = (False, rb) \<and> dequeue rb = (None, rb) \<and> front rb = None \<and>
      enqueue_bulk items len rb = (False, rb) \<and>
      dequeue_bulk out len overlap rb = (False, out, rb) \<and>
      front_bulk out len rb = (False, out)) \<and>
   (len > buffer_length rb \<longrightarrow>
      enqueue_bulk items len rb = (False, rb) \<and>
      dequeue_bulk out len overlap rb = (False, out, rb) \<and>
      front_bulk out len rb = (False, out)) \<and>
   (overlap > len \<longrightarrow> dequeue_bulk out len overlap rb = (False, out, rb)) \<and>
   (buffer_size rb < len \<longrightarrow>
      dequeue_bulk out len overlap rb = (False, out, rb) \<and>
      front_bulk out len rb = (False, out)) \<and>
   (\<not> fst (enqueue x rb) \<longrightarrow> snd (enqueue x rb) = rb) \<and>
   (\<not> fst (enqueue_bulk items len rb) \<longrightarrow> snd (enqueue_bulk items len rb) = rb) \<and>
   (fst (dequeue rb) = None \<longrightarrow> snd (dequeue rb) = rb) \<and>
   (\<not> fst (dequeue_bulk out len overlap rb) \<longrightarrow>
      snd (dequeue_bulk out len overlap rb) = (out, rb)) \<and>
   (\<not> fst (front_bulk out len rb) \<longrightarrow> snd (front_bulk out len rb) = out)"
  by (auto simp: enqueue_def dequeue_def front_def enqueue_bulk_def dequeue_bulk_def
      front_bulk_def Let_def split: prod.splits if_splits)

theorem failure_leaves_state_witness:
  "buffer_length (RingBuffer (0::nat) 0) = 0 \<and>
   enqueue 1 (RingBuffer (0::nat) 0) = (False, RingBuffer 0 0) \<and>
   dequeue (RingBuffer (0::nat) 0) = (None, RingBuffer 0 0) \<and>
   front (RingBuffer (0::nat) 0) = None \<and>
   3 > buffer_length (RingBuffer (0::nat) 2) \<and>
   enqueue_bulk [1, 2, 3] 3 (RingBuffer (0::nat) 2) = (False, RingBuffer 0 2) \<and>
   dequeue_bulk [9, 9, 9] 3 0 (RingBuffer (0::nat) 2) = (False, [9, 9, 9], RingBuffer 0 2) \<and>
   (2 :: size_t) > 1 \<and>
   dequeue_bulk [9] 1 2 (RingBuffer (0::nat) 2) = (False, [9], RingBuffer 0 2) \<and>
   buffer_size (RingBuffer (0::nat) 2) < 1 \<and>
   dequeue_bulk [9] 1 0 (RingBuffer (0::nat) 2) = (False, [9], RingBuffer 0 2) \<and>
   front_bulk [9] 1 (RingBuffer (0::nat) 2) = (False, [9]) \<and>
   \<not> fst (enqueue 1 (RingBuffer (0::nat) 0)) \<and>
   snd (enqueue 1 (RingBuffer (0::nat) 0)) = RingBuffer 0 0 \<and>
   \<not> fst (enqueue_bulk [1, 2, 3] 3 (RingBuffer (0::nat) 2)) \<and>
   snd (enqueue_bulk [1, 2, 3] 3 (RingBuffer (0::nat) 2)) = RingBuffer 0 2 \<and>
   fst (dequeue (RingBuffer (0::nat) 2)) = None \<and>
   snd (dequeue (RingBuffer (0::nat) 2)) = RingBuffer 0 2 \<and>
   \<not> fst (dequeue_bulk [9] 1 0 (RingBuffer (0::nat) 2)) \<and>
   snd (dequeue_bulk [9] 1 0 (RingBuffer (0::nat) 2)) = ([9], RingBuffer 0 2) \<and>
   \<not> fst (front_bulk [9] 1 (RingBuffer (0::nat) 2)) \<and>
   snd (front_bulk [9] 1 (RingBuffer (0::nat) 2)) = [9]"
proof -
  have h1: "buffer_length (RingBuffer (0::nat) 0) = 0" by (simp add: RingBuffer_def)
  have h2: "3 > buffer_length (RingBuffer (0::nat) 2)" by (simp add: RingBuffer_def)
  have h3: "(2 :: size_t) > 1" by simp
  have h4: "buffer_size (RingBuffer (0::nat) 2) < 1" by (simp add: RingBuffer_def)
  have h5: "fst (dequeue (RingBuffer (0::nat) 2)) = None"
    by (simp add: dequeue_def empty_rb_def RingBuffer_def)
  note a = failure_leaves_state[where rb = "RingBuffer (0::nat) 0" and x = 1]
  note b = failure_leaves_state[where rb = "RingBuffer (0::nat) 2" and len = 3
      and items = "[1, 2, 3]" and out = "[9, 9, 9]" and overlap = 0]
  note c = failure_leaves_state[where rb = "RingBuffer (0::nat) 2" and len = 1 and out = "[9]"
      and overlap = 2]
  note d = failure_leaves_state[where rb = "RingBuffer (0::nat) 2" and len = 1 and out = "[9]"
      and overlap = 0]
  show ?thesis
    using h1 h2 h3 h4 h5 a b c d by simp
qed

text \<open>
  Claim C10 holds for the constructor and fails on the code for \<open>resize\<close>. A buffer
  constructed with capacity 0 is full and empty at once: \<open>full()\<close> compares
  \<open>buffer_size >= buffer_length\<close> and both are 0. \<open>resize(0)\<close> does not return (its
  call to \<open>clear()\<close> locks the mutex it holds) and does not reset the count: on a
  buffer holding one element it leaves capacity 0 with count 1, which \<open>full()\<close>
  reports full and \<open>empty()\<close> reports not empty.
\<close>

theorem resize_zero_blocks_not_empty:
  "full (RingBuffer (0::nat) 0) \<and> empty_rb (RingBuffer (0::nat) 0) \<and>
   (\<exists>s. resize (0::nat) 0 (enqueue_seq [1] (RingBuffer 0 2)) = Blocks s \<and>
         buffer_length s = 0 \<and> buffer_size s = 1 \<and> full s \<and> \<not> empty_rb s)"
  by (simp add: resize_blocks enqueue_def full_def empty_rb_def RingBuffer_def)

section \<open>Graph: lemmas and properties\<close>

subsection \<open>Lemmas about the graph operations\<close>

lemma wf_graph_Graph: "0 \<le> n \<Longrightarrow> wf_graph (Graph n)"
  by (simp add: wf_graph_def Graph_def)

lemma set_list_update_append:
  assumes "x \<in> set (xs[i := xs ! i @ [e]])" "y \<in> set x"
  shows "y = e \<or> (\<exists>x' \<in> set xs. y \<in> set x')"
proof (cases "i < length xs")
  case True
  from assms(1) have "x \<in> insert (xs ! i @ [e]) (set xs)"
    using set_update_subset_insert by fastforce
  then show ?thesis using assms(2) True by (auto simp: nth_mem)
next
  case False
  then show ?thesis using assms by (auto simp: list_update_beyond)
qed

lemma wf_graph_addEdge:
  assumes "wf_graph g" "addEdge u v w g = Inr g'"
  shows "wf_graph g'"
proof -
  have r: "0 \<le> u" "u < num_nodes g" "0 \<le> v" "v < num_nodes g"
    using assms(2) by (auto simp: addEdge_def split: if_splits)
  define nbr1 where "nbr1 = (nbr g)[nat u := nbr g ! nat u @ [Edge v w]]"
  define nbr2 where "nbr2 = nbr1[nat v := nbr1 ! nat v @ [Edge u w]]"
  have g': "g' = g\<lparr>nbr := nbr2, num_edges := num_edges g + 1\<rparr>"
    using assms(2) r by (simp add: addEdge_def nbr1_def nbr2_def Let_def)
  have ok0: "\<forall>edges \<in> set (nbr g). \<forall>e \<in> set edges. 0 \<le> edge_to e \<and> edge_to e < num_nodes g"
    using assms(1) by (simp add: wf_graph_def)
  have ok1: "\<forall>edges \<in> set nbr1. \<forall>e \<in> set edges. 0 \<le> edge_to e \<and> edge_to e < num_nodes g"
  proof (intro ballI)
    fix edges e assume "edges \<in> set nbr1" "e \<in> set edges"
    then have "e = Edge v w \<or> (\<exists>x' \<in> set (nbr g). e \<in> set x')"
      unfolding nbr1_def by (rule set_list_update_append)
    then show "0 \<le> edge_to e \<and> edge_to e < num_nodes g" using ok0 r by auto
  qed
  have ok2: "\<forall>edges \<in> set nbr2. \<forall>e \<in> set edges. 0 \<le> edge_to e \<and> edge_to e < num_nodes g"
  proof (intro ballI)
    fix edges e assume "edges \<in> set nbr2" "e \<in> set edges"
    then have "e = Edge u w \<or> (\<exists>x' \<in> set nbr1. e \<in> set x')"
      unfolding nbr2_def by (rule set_list_update_append)
    then show "0 \<le> edge_to e \<and> edge_to e < num_nodes g" using ok1 r by auto
  qed
  show ?thesis
    using assms(1) ok2 by (simp add: wf_graph_def g' nbr2_def nbr1_def)
qed

lemma addEdge_calls_count:
  "getNumEdges (fst (addEdge_calls calls g)) = getNumEdges g + int (snd (addEdge_calls calls g))"
proof (induction calls arbitrary: g)
  case Nil
  then show ?case by simp
next
  case (Cons c calls)
  obtain u v w where c: "c = (u, v, w)" by (cases c)
  show ?case
  proof (cases "addEdge u v w g")
    case (Inl e)
    then show ?thesis using Cons.IH[of g] by (simp add: c)
  next
    case (Inr g')
    then have "getNumEdges g' = getNumEdges g + 1"
      by (auto simp: addEdge_def getNumEdges_def Let_def split: if_splits)
    then show ?thesis using Cons.IH[of g'] Inr
      by (cases "addEdge_calls calls g'") (simp add: c)
  qed
qed


lemma triangle_graph:
  assumes "3 \<le> N"
  shows "snd (addEdge_calls [(0, 1, 1), (1, 2, 1), (0, 2, 5)] (Graph N)) = 3"
    and "num_nodes (fst (addEdge_calls [(0, 1, 1), (1, 2, 1), (0, 2, 5)] (Graph N))) = N"
    and "length (nbr (fst (addEdge_calls [(0, 1, 1), (1, 2, 1), (0, 2, 5)] (Graph N)))) = nat N"
    and "nbr (fst (addEdge_calls [(0, 1, 1), (1, 2, 1), (0, 2, 5)] (Graph N))) ! 0
           = [Edge 1 1, Edge 2 5]"
    and "nbr (fst (addEdge_calls [(0, 1, 1), (1, 2, 1), (0, 2, 5)] (Graph N))) ! Suc 0
           = [Edge 0 1, Edge 2 1]"
    and "nbr (fst (addEdge_calls [(0, 1, 1), (1, 2, 1), (0, 2, 5)] (Graph N))) ! 2
           = [Edge 1 1, Edge 0 5]"
  using assms
  by (simp_all add: addEdge_def Graph_def Let_def nth_list_update)

lemma dijkstra_triangle:
  assumes N: "3 \<le> num_nodes g" and len: "length (nbr g) = nat (num_nodes g)"
    and n0: "nbr g ! 0 = [Edge 1 1, Edge 2 5]"
    and n1: "nbr g ! Suc 0 = [Edge 0 1, Edge 2 1]"
    and n2: "nbr g ! 2 = [Edge 1 1, Edge 0 5]"
  shows "\<exists>g'. dijkstra 0 g = Inr g' \<and> length (prev g') = nat (num_nodes g) \<and>
           prev g' ! 0 = - 1 \<and> prev g' ! Suc 0 = 0 \<and> prev g' ! 2 = 1"
proof -
  define n where "n = nat (num_nodes g)"
  have n3: "3 \<le> n" using N by (simp add: n_def)
  have lt: "0 < n" "Suc 0 < n" "2 < n" using n3 by simp_all
  show ?thesis
    unfolding dijkstra_def Let_def n_def[symmetric]
    using lt len[folded n_def] n0 n1 n2
    by (simp add: valid_index_def emplace_def double_to_int_def nth_list_update Let_def)
qed

declare message_loop.simps [simp del] string_of_nat.simps [simp del]

lemma to_string_digits:
  "to_string 0 = ''0''" "to_string 1 = ''1''" "to_string 2 = ''2''"
  by (simp_all add: to_string_def string_of_nat.simps digit_char_def)

lemma message_loop_3: "message_loop [0, 1, 2] 0 '''' = ''0-1-2''"
  by (simp add: message_loop.simps to_string_digits)

lemma recover_path_triangle:
  assumes "3 \<le> length prv" "prv ! 0 = - 1" "prv ! Suc 0 = 0" "prv ! 2 = 1"
  shows "recover_path prv 2 [] = Some (Inr [2, 1, 0])"
proof -
  have ne: "prv \<noteq> []" "Suc 0 < length prv" "2 < length prv" using assms(1) by auto
  have "recover_path prv 2 [] = recover_path prv 1 [2]"
    using assms ne by (subst recover_path.simps) (simp add: valid_index_def)
  also have "\<dots> = recover_path prv 0 [2, 1]"
    using assms ne by (subst recover_path.simps) (simp add: valid_index_def)
  also have "\<dots> = recover_path prv (- 1) [2, 1, 0]"
    using assms ne by (subst recover_path.simps) (simp add: valid_index_def)
  also have "\<dots> = Some (Inr [2, 1, 0])"
    by (subst recover_path.simps) simp
  finally show ?thesis .
qed


lemma relax_inv:
  assumes "length used = n" "length (dist_vec g) = n" "length (prev g) = n"
    and "\<forall>e \<in> set edges. 0 \<le> edge_to e \<and> nat (edge_to e) < n \<and> P (edge_to e)"
    and "\<forall>x \<in> set fringe. 0 \<le> snd x \<and> nat (snd x) < n \<and> P (snd x)"
    and "\<forall>v < n. prev g ! v \<noteq> - 1 \<longrightarrow> P (int v)"
  shows "\<exists>fringe' g'. relax from currentDist used edges fringe g = Inr (fringe', g') \<and>
           nbr g' = nbr g \<and> num_nodes g' = num_nodes g \<and> num_edges g' = num_edges g \<and>
           length (dist_vec g') = n \<and> length (prev g') = n \<and>
           (\<forall>x \<in> set fringe'. 0 \<le> snd x \<and> nat (snd x) < n \<and> P (snd x)) \<and>
           (\<forall>v < n. prev g' ! v \<noteq> - 1 \<longrightarrow> P (int v))"
  using assms
proof (induction edges arbitrary: fringe g)
  case Nil
  then show ?case by simp
next
  case (Cons edge edges)
  define to where "to = edge_to edge"
  define weight where "weight = double_to_int (edge_weight edge + of_int currentDist)"
  have to: "0 \<le> to" "nat to < n" "P to" using Cons.prems(4) by (simp_all add: to_def)
  have rest: "\<forall>e \<in> set edges. 0 \<le> edge_to e \<and> nat (edge_to e) < n \<and> P (edge_to e)"
    using Cons.prems(4) by simp
  have v1: "valid_index to used" "valid_index to (dist_vec g)" "valid_index to (prev g)"
    using to Cons.prems(1,2,3) by (simp_all add: valid_index_def)
  show ?case
  proof (cases "used ! nat to \<or> \<not> (dist_vec g ! nat to = - 1 \<or> weight < dist_vec g ! nat to)")
    case True
    then have "relax from currentDist used (edge # edges) fringe g =
        relax from currentDist used edges fringe g"
      using v1 by (auto simp: Let_def to_def weight_def)
    then show ?thesis
      using Cons.IH[OF Cons.prems(1,2,3) rest Cons.prems(5,6)] by (simp only:)
  next
    case False
    define g1 where "g1 = g\<lparr>dist_vec := (dist_vec g)[nat to := weight], prev := (prev g)[nat to := from]\<rparr>"
    define fringe1 where "fringe1 = emplace (dist_vec g1 ! nat to, to) fringe"
    have step: "relax from currentDist used (edge # edges) fringe g =
        relax from currentDist used edges fringe1 g1"
      using v1 False by (auto simp: Let_def to_def weight_def g1_def fringe1_def)
    have l1: "length (dist_vec g1) = n" "length (prev g1) = n"
      using Cons.prems(2,3) by (simp_all add: g1_def)
    have f1: "\<forall>x \<in> set fringe1. 0 \<le> snd x \<and> nat (snd x) < n \<and> P (snd x)"
      using Cons.prems(5) to by (auto simp: fringe1_def emplace_def set_insort_key)
    have p1: "\<forall>v < n. prev g1 ! v \<noteq> - 1 \<longrightarrow> P (int v)"
    proof (intro allI impI)
      fix v assume v: "v < n" and nz: "prev g1 ! v \<noteq> - 1"
      show "P (int v)"
      proof (cases "v = nat to")
        case True
        then show ?thesis using to by simp
      next
        case False
        then have "prev g1 ! v = prev g ! v" by (simp add: g1_def)
        then show ?thesis using Cons.prems(6) v nz by simp
      qed
    qed
    have same: "nbr g1 = nbr g" "num_nodes g1 = num_nodes g" "num_edges g1 = num_edges g"
      by (simp_all add: g1_def)
    from Cons.IH[OF Cons.prems(1) l1 rest f1 p1] show ?thesis
      unfolding step by (simp add: same)
  qed
qed

lemma dijkstra_loop_inv:
  assumes "length (nbr g) = n" "length used = n" "length (dist_vec g) = n" "length (prev g) = n"
    and "\<forall>edges \<in> set (nbr g). \<forall>e \<in> set edges. 0 \<le> edge_to e \<and> nat (edge_to e) < n"
    and "\<forall>u. P u \<longrightarrow> 0 \<le> u \<longrightarrow> nat u < n \<longrightarrow> (\<forall>e \<in> set (nbr g ! nat u). P (edge_to e))"
    and "\<forall>x \<in> set fringe. 0 \<le> snd x \<and> nat (snd x) < n \<and> P (snd x)"
    and "\<forall>v < n. prev g ! v \<noteq> - 1 \<longrightarrow> P (int v)"
  shows "\<exists>g'. dijkstra_loop used fringe g = Inr g' \<and>
           nbr g' = nbr g \<and> num_nodes g' = num_nodes g \<and> num_edges g' = num_edges g \<and>
           length (prev g') = n \<and>
           (\<forall>v < n. prev g' ! v \<noteq> - 1 \<longrightarrow> P (int v))"
  using assms
proof (induction used fringe g rule: dijkstra_loop.induct)
  case (1 used g)
  then show ?case by simp
next
  case (2 used currentDist "from" fringe g)
  have fr: "0 \<le> from" "nat from < n" "P from" using "2.prems"(7) by simp_all
  have rest: "\<forall>x \<in> set fringe. 0 \<le> snd x \<and> nat (snd x) < n \<and> P (snd x)"
    using "2.prems"(7) by simp
  have v: "valid_index from used" "valid_index from (nbr g)"
    using fr "2.prems"(1,2) by (simp_all add: valid_index_def)
  show ?case
  proof (cases "used ! nat from")
    case True
    have eq: "dijkstra_loop used ((currentDist, from) # fringe) g = dijkstra_loop used fringe g"
      using v True by simp
    have a1: "\<not> \<not> valid_index from used" using v by simp
    from "2.IH"(1)[OF a1 True "2.prems"(1,2,3,4,5,6) rest "2.prems"(8)]
    show ?thesis unfolding eq .
  next
    case False
    let ?used = "used[nat from := True]"
    have lu: "length ?used = n" using "2.prems"(2) by simp
    have mem: "nbr g ! nat from \<in> set (nbr g)"
      using fr "2.prems"(1) by (simp add: nth_mem)
    have es: "\<forall>e \<in> set (nbr g ! nat from). 0 \<le> edge_to e \<and> nat (edge_to e) < n \<and> P (edge_to e)"
      using "2.prems"(5,6) fr mem by blast
    obtain fringe' g' where r: "relax from currentDist ?used (nbr g ! nat from) fringe g
          = Inr (fringe', g')"
      and same: "nbr g' = nbr g" "num_nodes g' = num_nodes g" "num_edges g' = num_edges g"
      and l: "length (dist_vec g') = n" "length (prev g') = n"
      and f: "\<forall>x \<in> set fringe'. 0 \<le> snd x \<and> nat (snd x) < n \<and> P (snd x)"
      and p: "\<forall>v < n. prev g' ! v \<noteq> - 1 \<longrightarrow> P (int v)"
      using relax_inv[OF lu "2.prems"(3,4) es rest "2.prems"(8), of "from" currentDist] by blast
    have step: "dijkstra_loop used ((currentDist, from) # fringe) g
        = dijkstra_loop ?used fringe' g'"
      using v False by (simp add: r)
    have a1: "\<not> \<not> valid_index from used" and a2: "\<not> \<not> valid_index from (nbr g)"
      using v by simp_all
    have "\<exists>g''. dijkstra_loop ?used fringe' g' = Inr g'' \<and>
           nbr g'' = nbr g' \<and> num_nodes g'' = num_nodes g' \<and> num_edges g'' = num_edges g' \<and>
           length (prev g'') = n \<and>
           (\<forall>v < n. prev g'' ! v \<noteq> - 1 \<longrightarrow> P (int v))"
      using "2.prems"(1,5,6)
      by (intro "2.IH"(2)[OF a1 False a2 r refl _ lu l _ _ f p]) (simp_all add: same)
    then show ?thesis unfolding step by (simp add: same)
  qed
qed

lemma reachable_step:
  assumes "reachable g a u" "0 \<le> u" "nat u < length (nbr g)" "e \<in> set (nbr g ! nat u)"
  shows "reachable g a (edge_to e)"
proof -
  have "(u, edge_to e) \<in> edge_rel g"
    using assms(2,3,4) by (simp add: edge_rel_def valid_index_def)
  then show ?thesis
    using assms(1) unfolding reachable_def by (rule rtrancl_into_rtrancl[rotated])
qed

lemma dijkstra_prev_reachable:
  assumes wf: "wf_graph g" and a: "0 \<le> a" "a < num_nodes g"
  shows "\<exists>g'. dijkstra a g = Inr g' \<and> length (prev g') = nat (num_nodes g) \<and>
           (\<forall>v < nat (num_nodes g). prev g' ! v \<noteq> - 1 \<longrightarrow> reachable g a (int v))"
proof -
  define n where "n = nat (num_nodes g)"
  define g2 where "g2 = g\<lparr>prev := replicate n (- 1), dist_vec := (replicate n (- 1))[nat a := 0]\<rparr>"
  have an: "nat a < n" using a by (simp add: n_def)
  have d: "dijkstra a g = dijkstra_loop (replicate n False) [(0, a)] g2"
    using a an
    by (simp add: dijkstra_def Let_def n_def[symmetric] g2_def valid_index_def emplace_def
        del: dijkstra_loop.simps)
  have len: "length (nbr g2) = n" using wf by (simp add: g2_def wf_graph_def n_def)
  have es: "\<forall>edges \<in> set (nbr g2). \<forall>e \<in> set edges. 0 \<le> edge_to e \<and> nat (edge_to e) < n"
    using wf by (fastforce simp: g2_def wf_graph_def n_def)
  have cl: "\<forall>u. reachable g a u \<longrightarrow> 0 \<le> u \<longrightarrow> nat u < n \<longrightarrow>
      (\<forall>e \<in> set (nbr g2 ! nat u). reachable g a (edge_to e))"
  proof (intro allI impI ballI)
    fix u e assume "reachable g a u" "0 \<le> u" "nat u < n" "e \<in> set (nbr g2 ! nat u)"
    then show "reachable g a (edge_to e)"
      using len by (intro reachable_step[of g a u e]) (simp_all add: g2_def)
  qed
  have fr: "\<forall>x \<in> set [(0 :: int, a)]. 0 \<le> snd x \<and> nat (snd x) < n \<and> reachable g a (snd x)"
    using a an by (simp add: reachable_def)
  have pv: "\<forall>v < n. prev g2 ! v \<noteq> - 1 \<longrightarrow> reachable g a (int v)"
    by (simp add: g2_def)
  have "\<exists>g'. dijkstra_loop (replicate n False) [(0, a)] g2 = Inr g' \<and>
           nbr g' = nbr g2 \<and> num_nodes g' = num_nodes g2 \<and> num_edges g' = num_edges g2 \<and>
           length (prev g') = n \<and>
           (\<forall>v < n. prev g' ! v \<noteq> - 1 \<longrightarrow> reachable g a (int v))"
    by (rule dijkstra_loop_inv[OF len _ _ _ es cl fr pv]) (simp_all add: g2_def)
  then show ?thesis unfolding d n_def[symmetric] by blast
qed


lemma reach_from_0:
  assumes "nbr g ! 0 = [Edge 1 1]" "nbr g ! Suc 0 = [Edge 0 1]" "(0, v) \<in> (edge_rel g)\<^sup>*"
  shows "v = 0 \<or> v = 1"
  using assms(3)
proof (induction rule: rtrancl_induct)
  case base
  then show ?case by simp
next
  case (step y z)
  then show ?case using assms(1,2) by (auto simp: edge_rel_def)
qed


subsection \<open>Properties of the graph\<close>

text \<open>
  Claim C1. On a graph constructed with \<open>N \<ge> 3\<close> nodes, the three calls
  \<open>addEdge(0,1,1.0)\<close>, \<open>addEdge(1,2,1.0)\<close>, \<open>addEdge(0,2,5.0)\<close> all succeed, and
  \<open>shortestPath(0, 2)\<close> then returns the message \<open>0-1-2\<close>.
\<close>

theorem shortestPath_triangle:
  assumes "3 \<le> N"
  shows "snd (addEdge_calls [(0, 1, 1), (1, 2, 1), (0, 2, 5)] (Graph N)) = 3 \<and>
         (\<exists>g'. shortestPath 0 2 (fst (addEdge_calls [(0, 1, 1), (1, 2, 1), (0, 2, 5)] (Graph N)))
                = Some (Inr (''0-1-2'', g')))"
proof -
  define g where "g = fst (addEdge_calls [(0, 1, 1), (1, 2, 1), (0, 2, 5)] (Graph N))"
  note tg = triangle_graph[OF assms, folded g_def]
  have N': "3 \<le> num_nodes g" using assms by (simp add: tg(2))
  have len: "length (nbr g) = nat (num_nodes g)" by (simp add: tg(2) tg(3))
  obtain g' where d: "dijkstra 0 g = Inr g'" and l: "length (prev g') = nat (num_nodes g)"
    and p: "prev g' ! 0 = - 1" "prev g' ! Suc 0 = 0" "prev g' ! 2 = 1"
    using dijkstra_triangle[OF N' len tg(4) tg(5) tg(6)] by blast
  have "3 \<le> length (prev g')" using assms by (simp add: l tg(2))
  then have r: "recover_path (prev g') 2 [] = Some (Inr [2, 1, 0])"
    using p by (rule recover_path_triangle)
  have "shortestPath 0 2 g = Some (Inr (''0-1-2'', g'))"
    by (simp add: shortestPath_def d r message_loop_3)
  then show ?thesis using tg(1) unfolding g_def by blast
qed

theorem shortestPath_triangle_witness:
  "(3 :: int) \<le> 4 \<and>
   snd (addEdge_calls [(0, 1, 1), (1, 2, 1), (0, 2, 5)] (Graph 4)) = 3 \<and>
   (\<exists>g'. shortestPath 0 2 (fst (addEdge_calls [(0, 1, 1), (1, 2, 1), (0, 2, 5)] (Graph 4)))
          = Some (Inr (''0-1-2'', g')))"
proof -
  have h: "(3 :: int) \<le> 4" by simp
  show ?thesis using h shortestPath_triangle[OF h] by blast
qed

text \<open>
  Claim C7 fails on the code: the relaxation stores \<open>edge.weight + currentDist\<close> in an
  \<open>int\<close>, which drops the fraction. With the single edge \<open>(0, 1, 0.5)\<close>, \<open>dijkstra(0)\<close>
  finalizes node 0 at distance 0 and assigns node 1 the distance 0, not \<open>0 + 0.5\<close>.
\<close>

theorem relaxation_truncates_weight:
  "\<exists>g'. dijkstra 0 (fst (addEdge_calls [(0, 1, 1 / 2)] (Graph 2))) = Inr g' \<and>
         dist_vec g' = [0, 0] \<and> prev g' = [- 1, 0] \<and>
         real_of_int (dist_vec g' ! 1) \<noteq> real_of_int (dist_vec g' ! 0) + 1 / 2"
  by (simp add: dijkstra_def addEdge_def Graph_def Let_def valid_index_def emplace_def
      double_to_int_def numeral_2_eq_2)

text \<open>
  Claim C8. \<open>shortestPath(a, a)\<close> returns the id of \<open>a\<close> twice, joined by \<open>-\<close>
  (\<open>0-0\<close> for node 0). On a well-formed graph, for nodes \<open>a\<close> and \<open>b\<close> in range with
  \<open>b\<close> not reachable from \<open>a\<close>, \<open>shortestPath(a, b)\<close> returns the empty message.
\<close>

theorem shortestPath_self_and_unreachable:
  "shortestPath a a g = Some (Inr (to_string a @ ''-'' @ to_string a, g)) \<and>
   shortestPath 0 0 g = Some (Inr (''0-0'', g)) \<and>
   (wf_graph g \<and> 0 \<le> a \<and> a < num_nodes g \<and> 0 \<le> b \<and> b < num_nodes g \<and>
    \<not> reachable g a b \<longrightarrow>
      (\<exists>g'. shortestPath a b g = Some (Inr ('''', g'))))"
proof (intro conjI impI)
  show "shortestPath a a g = Some (Inr (to_string a @ ''-'' @ to_string a, g))"
    by (simp add: shortestPath_def)
  show "shortestPath 0 0 g = Some (Inr (''0-0'', g))"
    by (simp add: shortestPath_def to_string_digits)
next
  assume h: "wf_graph g \<and> 0 \<le> a \<and> a < num_nodes g \<and> 0 \<le> b \<and> b < num_nodes g \<and>
    \<not> reachable g a b"
  then have ne: "a \<noteq> b" by (auto simp: reachable_def)
  obtain g' where d: "dijkstra a g = Inr g'" and l: "length (prev g') = nat (num_nodes g)"
    and p: "\<forall>v < nat (num_nodes g). prev g' ! v \<noteq> - 1 \<longrightarrow> reachable g a (int v)"
    using dijkstra_prev_reachable[of g a] h by blast
  have bn: "nat b < nat (num_nodes g)" using h by simp
  have "prev g' ! nat b = - 1"
  proof (rule ccontr)
    assume "prev g' ! nat b \<noteq> - 1"
    then have "reachable g a (int (nat b))" using p bn by blast
    then show False using h by simp
  qed
  moreover have vb: "valid_index b (prev g')" using h l by (simp add: valid_index_def)
  moreover have "b \<noteq> - 1" using h by simp
  ultimately have "recover_path (prev g') b [] = recover_path (prev g') (- 1) [b]"
    by (subst recover_path.simps) simp
  also have "\<dots> = Some (Inr [b])" by (subst recover_path.simps) simp
  finally have r: "recover_path (prev g') b [] = Some (Inr [b])" .
  have "shortestPath a b g = Some (Inr ('''', g'))"
    using ne by (simp add: shortestPath_def d r)
  then show "\<exists>g'. shortestPath a b g = Some (Inr ('''', g'))" by blast
qed


theorem shortestPath_self_and_unreachable_witness:
  "shortestPath 7 7 (fst (addEdge_calls [(0, 1, 1)] (Graph 3))) =
     Some (Inr (''7-7'', fst (addEdge_calls [(0, 1, 1)] (Graph 3)))) \<and>
   wf_graph (fst (addEdge_calls [(0, 1, 1)] (Graph 3))) \<and>
   (0 :: int) \<le> 0 \<and> 0 < num_nodes (fst (addEdge_calls [(0, 1, 1)] (Graph 3))) \<and>
   (0 :: int) \<le> 2 \<and> 2 < num_nodes (fst (addEdge_calls [(0, 1, 1)] (Graph 3))) \<and>
   \<not> reachable (fst (addEdge_calls [(0, 1, 1)] (Graph 3))) 0 2 \<and>
   (\<exists>g'. shortestPath 0 2 (fst (addEdge_calls [(0, 1, 1)] (Graph 3))) = Some (Inr ('''', g')))"
proof -
  define g where "g = fst (addEdge_calls [(0, 1, 1)] (Graph 3))"
  have v: "g = \<lparr>num_nodes = 3, num_edges = 1, nbr = [[Edge 1 1], [Edge 0 1], []],
      dist_vec = [], prev = []\<rparr>"
    by (simp add: g_def addEdge_def Graph_def Let_def numeral_3_eq_3)
  have h1: "wf_graph g" by (simp add: v wf_graph_def)
  have h2: "0 < num_nodes g" "2 < num_nodes g" by (simp_all add: v)
  have h3: "\<not> reachable g 0 2"
    using reach_from_0[of g 2] by (auto simp: v reachable_def)
  have s: "to_string 7 = ''7''"
    by (simp add: to_string_def string_of_nat.simps digit_char_def)
  have t1: "shortestPath 7 7 g = Some (Inr (''7-7'', g))"
    using shortestPath_self_and_unreachable[of 7 g] by (simp add: s)
  have t2: "\<exists>g'. shortestPath 0 2 g = Some (Inr ('''', g'))"
    using shortestPath_self_and_unreachable[of 0 g 2] h1 h2 h3 by simp
  show ?thesis
    using t1 h1 h2 h3 t2 unfolding g_def by simp
qed

text \<open>
  Claim C9. \<open>addEdge(u, v, w)\<close> with \<open>u\<close> or \<open>v\<close> outside \<open>[0, num_nodes)\<close> throws
  \<open>std::out_of_range\<close> (and so changes nothing). In range it appends \<open>(v, w)\<close> to
  \<open>nbr[u]\<close>, then \<open>(u, w)\<close> to \<open>nbr[v]\<close>, changes no other adjacency list and adds one
  to \<open>num_edges\<close>. Hence after any sequence of calls \<open>getNumEdges()\<close> has grown by the
  number of calls that succeeded, and equals that number on a graph that started from
  the constructor.
\<close>

theorem addEdge_range_and_count:
  assumes "length (nbr g) = nat (num_nodes g)"
  shows "(u \<ge> num_nodes g \<or> u < 0 \<or> v \<ge> num_nodes g \<or> v < 0 \<longrightarrow>
            addEdge u v w g = Inl Out_of_range) \<and>
         (0 \<le> u \<and> u < num_nodes g \<and> 0 \<le> v \<and> v < num_nodes g \<longrightarrow>
            (\<exists>g'. addEdge u v w g = Inr g' \<and>
               getNumEdges g' = getNumEdges g + 1 \<and>
               num_nodes g' = num_nodes g \<and>
               length (nbr g') = length (nbr g) \<and>
               (u \<noteq> v \<longrightarrow> nbr g' ! nat u = nbr g ! nat u @ [Edge v w] \<and>
                          nbr g' ! nat v = nbr g ! nat v @ [Edge u w]) \<and>
               (u = v \<longrightarrow> nbr g' ! nat u = nbr g ! nat u @ [Edge v w, Edge u w]) \<and>
               (\<forall>k. k \<noteq> nat u \<and> k \<noteq> nat v \<longrightarrow> nbr g' ! k = nbr g ! k))) \<and>
         getNumEdges (fst (addEdge_calls calls g)) =
           getNumEdges g + int (snd (addEdge_calls calls g)) \<and>
         getNumEdges (fst (addEdge_calls calls (Graph n))) =
           int (snd (addEdge_calls calls (Graph n)))"
proof (intro conjI impI)
  assume "u \<ge> num_nodes g \<or> u < 0 \<or> v \<ge> num_nodes g \<or> v < 0"
  then show "addEdge u v w g = Inl Out_of_range" by (auto simp: addEdge_def)
next
  assume r: "0 \<le> u \<and> u < num_nodes g \<and> 0 \<le> v \<and> v < num_nodes g"
  define nbr1 where "nbr1 = (nbr g)[nat u := nbr g ! nat u @ [Edge v w]]"
  define nbr2 where "nbr2 = nbr1[nat v := nbr1 ! nat v @ [Edge u w]]"
  define g' where "g' = g\<lparr>nbr := nbr2, num_edges := num_edges g + 1\<rparr>"
  have e: "addEdge u v w g = Inr g'"
    using r by (simp add: addEdge_def nbr1_def nbr2_def g'_def Let_def)
  have lu: "nat u < length (nbr g)" and lv: "nat v < length (nbr g)"
    using r assms by auto
  have uv: "u \<noteq> v \<Longrightarrow> nat u \<noteq> nat v" using r by auto
  have "getNumEdges g' = getNumEdges g + 1" by (simp add: g'_def getNumEdges_def)
  moreover have "num_nodes g' = num_nodes g" by (simp add: g'_def)
  moreover have "length (nbr g') = length (nbr g)" by (simp add: g'_def nbr2_def nbr1_def)
  moreover have "u \<noteq> v \<longrightarrow> nbr g' ! nat u = nbr g ! nat u @ [Edge v w] \<and>
                          nbr g' ! nat v = nbr g ! nat v @ [Edge u w]"
  proof
    assume "u \<noteq> v"
    then have ne: "nat u \<noteq> nat v" by (rule uv)
    show "nbr g' ! nat u = nbr g ! nat u @ [Edge v w] \<and>
          nbr g' ! nat v = nbr g ! nat v @ [Edge u w]"
      using lu lv ne by (simp add: g'_def nbr2_def nbr1_def nth_list_update)
  qed
  moreover have "u = v \<longrightarrow> nbr g' ! nat u = nbr g ! nat u @ [Edge v w, Edge u w]"
    using lu by (simp add: g'_def nbr2_def nbr1_def)
  moreover have "\<forall>k. k \<noteq> nat u \<and> k \<noteq> nat v \<longrightarrow> nbr g' ! k = nbr g ! k"
    by (simp add: g'_def nbr2_def nbr1_def)
  ultimately show "\<exists>g'. addEdge u v w g = Inr g' \<and>
               getNumEdges g' = getNumEdges g + 1 \<and>
               num_nodes g' = num_nodes g \<and>
               length (nbr g') = length (nbr g) \<and>
               (u \<noteq> v \<longrightarrow> nbr g' ! nat u = nbr g ! nat u @ [Edge v w] \<and>
                          nbr g' ! nat v = nbr g ! nat v @ [Edge u w]) \<and>
               (u = v \<longrightarrow> nbr g' ! nat u = nbr g ! nat u @ [Edge v w, Edge u w]) \<and>
               (\<forall>k. k \<noteq> nat u \<and> k \<noteq> nat v \<longrightarrow> nbr g' ! k = nbr g ! k)"
    using e by blast
next
  show "getNumEdges (fst (addEdge_calls calls g)) =
           getNumEdges g + int (snd (addEdge_calls calls g))"
    by (rule addEdge_calls_count)
next
  show "getNumEdges (fst (addEdge_calls calls (Graph n))) =
           int (snd (addEdge_calls calls (Graph n)))"
    using addEdge_calls_count[of calls "Graph n"] by (simp add: getNumEdges_def Graph_def)
qed

theorem addEdge_range_and_count_witness:
  "length (nbr (Graph 3)) = nat (num_nodes (Graph 3)) \<and>
   3 \<ge> num_nodes (Graph 3) \<and>
   addEdge 0 3 1 (Graph 3) = Inl Out_of_range \<and>
   (0 \<le> (0 :: int) \<and> 0 < num_nodes (Graph 3) \<and> 0 \<le> (1 :: int) \<and> 1 < num_nodes (Graph 3)) \<and>
   (\<exists>g'. addEdge 0 1 1 (Graph 3) = Inr g' \<and> getNumEdges g' = 1 \<and>
      nbr g' ! nat 0 = [Edge 1 1] \<and> nbr g' ! nat 1 = [Edge 0 1] \<and> nbr g' ! 2 = []) \<and>
   (0 \<le> (2 :: int) \<and> 2 < num_nodes (Graph 3)) \<and>
   (\<exists>g'. addEdge 2 2 1 (Graph 3) = Inr g' \<and> getNumEdges g' = 1 \<and>
      nbr g' ! nat 2 = [Edge 2 1, Edge 2 1]) \<and>
   getNumEdges (fst (addEdge_calls [(0, 1, 1), (0, 3, 1), (1, 2, 1), (- 1, 2, 1)] (Graph 3))) = 2 \<and>
   snd (addEdge_calls [(0, 1, 1), (0, 3, 1), (1, 2, 1), (- 1, 2, 1)] (Graph 3)) = 2"
proof -
  let ?calls = "[(0, 1, 1), (0, 3, 1), (1, 2, 1), (- 1, 2, 1)] :: (int \<times> int \<times> real) list"
  have h: "length (nbr (Graph 3)) = nat (num_nodes (Graph 3))" by (simp add: Graph_def)
  have n: "num_nodes (Graph 3) = 3" by (simp add: Graph_def)
  have z: "getNumEdges (Graph 3) = 0" by (simp add: Graph_def getNumEdges_def)
  have e: "nbr (Graph 3) ! nat 0 = []" "nbr (Graph 3) ! nat 1 = []" "nbr (Graph 3) ! nat 2 = []"
    "nbr (Graph 3) ! 2 = []"
    by (simp_all add: Graph_def numeral_3_eq_3)
  have c: "snd (addEdge_calls ?calls (Graph 3)) = 2"
    by (simp add: addEdge_def Graph_def Let_def)
  note t = addEdge_range_and_count[OF h, where u = 0 and v = 3 and w = 1 and calls = "[]"
      and n = 3]
  note s = addEdge_range_and_count[OF h, where u = 0 and v = 1 and w = 1 and calls = ?calls
      and n = 3]
  note l = addEdge_range_and_count[OF h, where u = 2 and v = 2 and w = 1 and calls = "[]"
      and n = 3]
  have a1: "addEdge 0 3 1 (Graph 3) = Inl Out_of_range"
    using t n by simp
  have a2: "\<exists>g'. addEdge 0 1 1 (Graph 3) = Inr g' \<and> getNumEdges g' = 1 \<and>
      nbr g' ! nat 0 = [Edge 1 1] \<and> nbr g' ! nat 1 = [Edge 0 1] \<and> nbr g' ! 2 = []"
    using s n z e by auto
  have a3: "getNumEdges (fst (addEdge_calls ?calls (Graph 3))) = 2"
    using s c z by simp
  have a4: "\<exists>g'. addEdge 2 2 1 (Graph 3) = Inr g' \<and> getNumEdges g' = 1 \<and>
      nbr g' ! nat 2 = [Edge 2 1, Edge 2 1]"
    using l n z e by auto
  show ?thesis
    using h n a1 a2 a3 a4 c by simp
qed

end
